theory Spec2Isabelle
  imports Complex_Main "HOL-Library.Monad_Syntax"
begin

unbundle bit_operations_syntax

section \<open>QSpringies: the entity store and the simulation step\<close>

text \<open>
  A shallow embedding of \<^verbatim>\<open>system.h\<close>, \<^verbatim>\<open>state.h\<close>, \<^verbatim>\<open>misc.cpp\<close>,
  \<^verbatim>\<open>system.cpp\<close> and \<^verbatim>\<open>phys.cpp\<close>.

  Conventions of the embedding:
  \<^item> a C++ \<^verbatim>\<open>double\<close> is a HOL \<open>real\<close>: arithmetic is exact, there is no rounding,
    no overflow, no infinity and no NaN; the one exception is the accumulator of the
    frame pacer, whose sums and differences are those of an arithmetic of doubles that
    is a parameter of the model, with IEEE binary64 as an instance;
  \<^item> a C++ \<^verbatim>\<open>int\<close> is a HOL \<open>int\<close> (no wrap-around; the containers are far smaller
    than \<open>2^31\<close>);
  \<^item> \<^verbatim>\<open>std::vector\<close> is a list; \<^verbatim>\<open>v[i]\<close> with an index that comes from data
    (a spring endpoint, a parent entry, the centre id) is undefined behaviour in C++ when
    the index is out of range, and is the result \<open>None\<close> here; an index that is the
    counter of a loop bounded by the container's size is read with \<open>!\<close>;
  \<^item> mutation is explicit state passing; a loop is a recursive function or a fold over
    the indices it visits, in the order it visits them.
\<close>

subsection \<open>Data model (\<^verbatim>\<open>system.h\<close>, \<^verbatim>\<open>state.h\<close>)\<close>

definition S_ALIVE :: int where "S_ALIVE = 1"
definition S_SELECTED :: int where "S_SELECTED = 2"
definition S_FIXED :: int where "S_FIXED = 4"
definition S_TEMPFIXED :: int where "S_TEMPFIXED = 8"

text \<open>Both \<^verbatim>\<open>Mass\<close> and \<^verbatim>\<open>Spring\<close> carry an \<^verbatim>\<open>int status\<close> bit set.\<close>

record entity =
  status :: int

record Mass = entity +
  x :: real
  y :: real
  vx :: real
  vy :: real
  ax :: real
  ay :: real
  mass :: real
  elastic :: real
  radius :: int
  parents :: "int list"
  cur_x :: real
  cur_y :: real
  cur_vx :: real
  cur_vy :: real
  old_x :: real
  old_y :: real
  old_vx :: real
  old_vy :: real
  test_x :: real
  test_y :: real
  test_vx :: real
  test_vy :: real
  k1x :: real
  k1y :: real
  k1vx :: real
  k1vy :: real
  k2x :: real
  k2y :: real
  k2vx :: real
  k2vy :: real
  k3x :: real
  k3y :: real
  k3vx :: real
  k3vy :: real
  k4x :: real
  k4y :: real
  k4vx :: real
  k4vy :: real
  k5x :: real
  k5y :: real
  k5vx :: real
  k5vy :: real
  k6x :: real
  k6y :: real
  k6vx :: real
  k6vy :: real

record Spring = entity +
  ks :: real
  kd :: real
  restlen :: real
  m1 :: int
  m2 :: int

definition FR_GRAV :: nat where "FR_GRAV = 0"
definition FR_CMASS :: nat where "FR_CMASS = 1"
definition FR_PTATTRACT :: nat where "FR_PTATTRACT = 2"
definition FR_WALL :: nat where "FR_WALL = 3"
definition DEF_TSTEP :: real where "DEF_TSTEP = 0.025"

text \<open>
  The three arrays of \<^verbatim>\<open>State\<close> have \<^verbatim>\<open>BF_NUM = 4\<close> entries and are only ever
  read at the four constants above; they are functions of the index here.
\<close>

record State =
  cur_mass :: real
  cur_rest :: real
  cur_ks :: real
  cur_kd :: real
  fix_mass :: bool
  show_spring :: bool
  center_id :: int
  force_enabled :: "nat \<Rightarrow> bool"
  cur_grav_val :: "nat \<Rightarrow> real"
  cur_misc_val :: "nat \<Rightarrow> real"
  cur_visc :: real
  cur_stick :: real
  cur_dt :: real
  cur_prec :: real
  adaptive_step :: bool
  grid_snap :: bool
  cur_gsnap :: real
  w_top :: bool
  w_left :: bool
  w_right :: bool
  w_bottom :: bool
  collide :: bool

text \<open>
  \<^verbatim>\<open>class System\<close>; the members \<^verbatim>\<open>state_\<close>, \<^verbatim>\<open>masses_\<close>, \<^verbatim>\<open>springs_\<close>,
  \<^verbatim>\<open>fakeMass_\<close>, \<^verbatim>\<open>fakeSpring_\<close> lose their trailing underscore.
\<close>

record System =
  state :: State
  masses :: "Mass list"
  springs :: "Spring list"
  fakeMass :: int
  fakeSpring :: int

text \<open>
  \<^verbatim>\<open>class Physics\<close> (\<^verbatim>\<open>system_\<close>, \<^verbatim>\<open>width_\<close>, \<^verbatim>\<open>height_\<close>) and the two
  function-local statics of \<^verbatim>\<open>Physics::advance\<close>.
\<close>

record Physics =
  system :: System
  width :: int
  height :: int

record Statics =
  num_since :: int
  time_elapsed :: real

subsection \<open>Status accessors\<close>

text \<open>
  Modelled from the spec: the member functions \<^verbatim>\<open>isAlive\<close>, \<^verbatim>\<open>setAlive\<close>,
  \<^verbatim>\<open>isSelected\<close>, \<^verbatim>\<open>setSelected\<close> and \<^verbatim>\<open>isFixed\<close> of \<^verbatim>\<open>Mass\<close> and
  \<^verbatim>\<open>Spring\<close> are called by \<^verbatim>\<open>system.cpp\<close> but their bodies are not among the
  sources. The data model describes the status as a bit set over ALIVE, SELECTED, FIXED
  and TEMP_FIXED, and \<^verbatim>\<open>phys.cpp\<close> tests the same bits as \<^verbatim>\<open>status & S_ALIVE\<close>
  and \<^verbatim>\<open>status & S_FIXED\<close>; the accessors test, set and clear the bit of that name.
\<close>

definition isAlive :: "'a entity_scheme \<Rightarrow> bool" where
  "isAlive e = (status e AND S_ALIVE \<noteq> 0)"

definition isSelected :: "'a entity_scheme \<Rightarrow> bool" where
  "isSelected e = (status e AND S_SELECTED \<noteq> 0)"

definition isFixed :: "'a entity_scheme \<Rightarrow> bool" where
  "isFixed e = (status e AND S_FIXED \<noteq> 0)"

definition setAlive :: "bool \<Rightarrow> 'a entity_scheme \<Rightarrow> 'a entity_scheme" where
  "setAlive b e =
     e\<lparr>status := (if b then status e OR S_ALIVE else status e AND NOT S_ALIVE)\<rparr>"

definition setSelected :: "bool \<Rightarrow> 'a entity_scheme \<Rightarrow> 'a entity_scheme" where
  "setSelected b e =
     e\<lparr>status := (if b then status e OR S_SELECTED else status e AND NOT S_SELECTED)\<rparr>"

subsection \<open>Entity store (\<^verbatim>\<open>system.h\<close>, \<^verbatim>\<open>system.cpp\<close>)\<close>

definition massCount :: "System \<Rightarrow> int" where
  "massCount sys = int (length (masses sys))"

definition springCount :: "System \<Rightarrow> int" where
  "springCount sys = int (length (springs sys))"

text \<open>
  \<^verbatim>\<open>masses_[i]\<close> and \<^verbatim>\<open>springs_[i]\<close> for an index that comes from data: \<open>None\<close>
  stands for the undefined behaviour of an out-of-range access.
\<close>

definition getMass :: "System \<Rightarrow> int \<Rightarrow> Mass option" where
  "getMass sys i =
     (if 0 \<le> i \<and> i < massCount sys then Some (masses sys ! nat i) else None)"

definition getSpring :: "System \<Rightarrow> int \<Rightarrow> Spring option" where
  "getSpring sys i =
     (if 0 \<le> i \<and> i < springCount sys then Some (springs sys ! nat i) else None)"

definition putMass :: "int \<Rightarrow> Mass \<Rightarrow> System \<Rightarrow> System" where
  "putMass i m sys = sys\<lparr>masses := (masses sys)[nat i := m]\<rparr>"

definition putSpring :: "int \<Rightarrow> Spring \<Rightarrow> System \<Rightarrow> System" where
  "putSpring i s sys = sys\<lparr>springs := (springs sys)[nat i := s]\<rparr>"

text \<open>
  The constructor \<^verbatim>\<open>Mass()\<close> initialises position, velocity, acceleration, mass,
  elasticity, radius and status, and leaves the Runge-Kutta scratch fields
  indeterminate: they are whatever the argument \<open>junk\<close> holds. \<^verbatim>\<open>Spring()\<close>
  initialises every field.
\<close>

definition new_Mass :: "Mass \<Rightarrow> Mass" where
  "new_Mass junk =
     junk\<lparr>x := 0, y := 0, vx := 0, vy := 0, ax := 0, ay := 0, mass := 0, elastic := 0,
          radius := 0, parents := [], status := S_ALIVE\<rparr>"

definition new_Spring :: Spring where
  "new_Spring = \<lparr>status = S_ALIVE, ks = 0, kd = 0, restlen = 0, m1 = 0, m2 = 0\<rparr>"

definition createMass :: "Mass \<Rightarrow> System \<Rightarrow> int \<times> System" where
  "createMass junk sys =
     (let num = massCount sys in (num, sys\<lparr>masses := masses sys @ [new_Mass junk]\<rparr>))"

definition createSpring :: "System \<Rightarrow> int \<times> System" where
  "createSpring sys =
     (let num = springCount sys in (num, sys\<lparr>springs := springs sys @ [new_Spring]\<rparr>))"

definition addMassParent :: "int \<Rightarrow> int \<Rightarrow> System \<Rightarrow> System option" where
  "addMassParent which parent sys =
     do {
       m \<leftarrow> getMass sys which;
       Some (putMass which (m\<lparr>parents := parents m @ [parent]\<rparr>) sys)
     }"

text \<open>\<^verbatim>\<open>std::find\<close> followed by \<^verbatim>\<open>erase\<close> removes the first occurrence.\<close>

definition deleteMassParent :: "int \<Rightarrow> int \<Rightarrow> System \<Rightarrow> System option" where
  "deleteMassParent which parent sys =
     do {
       m \<leftarrow> getMass sys which;
       Some (if isAlive m
             then putMass which (m\<lparr>parents := remove1 parent (parents m)\<rparr>) sys
             else sys)
     }"

definition deleteSpring :: "int \<Rightarrow> System \<Rightarrow> System option" where
  "deleteSpring which sys =
     do {
       s \<leftarrow> getSpring sys which;
       if isAlive s
       then do {
         sys1 \<leftarrow> deleteMassParent (m1 s) which (putSpring which (s\<lparr>status := 0\<rparr>) sys);
         deleteMassParent (m2 s) which sys1
       }
       else Some sys
     }"

text \<open>
  The loop \<^verbatim>\<open>for (int par : masses_[which].parents) deleteSpring(par);\<close> of
  \<^verbatim>\<open>deleteMass\<close>. It runs over the parent list as it is when the loop starts; the
  mass \<open>which\<close> is no longer alive then, so \<^verbatim>\<open>deleteMassParent\<close> leaves that list
  alone while the loop runs (lemma \<open>deleteSprings_parents_dead\<close> below).
\<close>

fun deleteSprings :: "int list \<Rightarrow> System \<Rightarrow> System option" where
  "deleteSprings [] sys = Some sys"
| "deleteSprings (par # pars) sys =
     do { sys1 \<leftarrow> deleteSpring par sys; deleteSprings pars sys1 }"

definition deleteMass :: "int \<Rightarrow> System \<Rightarrow> System option" where
  "deleteMass which sys =
     do {
       m \<leftarrow> getMass sys which;
       sys1 \<leftarrow> (if isAlive m
                then deleteSprings (parents m) (putMass which (m\<lparr>status := 0\<rparr>) sys)
                else Some sys);
       Some (if which = center_id (state sys1)
             then sys1\<lparr>state := (state sys1)\<lparr>center_id := - 1\<rparr>\<rparr>
             else sys1)
     }"

text \<open>
  \<^verbatim>\<open>evalSelection\<close>. The locals of the mass loop are only read once \<^verbatim>\<open>found\<close>
  is set, and they are all assigned when it is set: the accumulator is \<open>None\<close> while
  \<^verbatim>\<open>found\<close> is false and holds the locals afterwards.
\<close>

record mass_sel =
  sel_mass :: real
  mass_same :: bool
  sel_elas :: real
  elas_same :: bool
  sel_fix :: bool
  fix_same :: bool

record spring_sel =
  sel_ks :: real
  ks_same :: bool
  sel_kd :: real
  kd_same :: bool

definition eval_mass_step :: "mass_sel option \<Rightarrow> Mass \<Rightarrow> mass_sel option" where
  "eval_mass_step acc m =
     (if isSelected m then
        (case acc of
           Some l \<Rightarrow>
             (let l1 = (if mass_same l \<and> mass m \<noteq> sel_mass l
                        then l\<lparr>mass_same := False\<rparr> else l);
                  l2 = (if elas_same l1 \<and> elastic m \<noteq> sel_elas l1
                        then l1\<lparr>elas_same := False\<rparr> else l1);
                  l3 = (if fix_same l2 \<and> isFixed m
                        then l2\<lparr>fix_same := False\<rparr> else l2)
              in Some l3)
         | None \<Rightarrow>
             Some \<lparr>sel_mass = mass m, mass_same = True, sel_elas = elastic m,
                   elas_same = True, sel_fix = isFixed m, fix_same = True\<rparr>)
      else acc)"

text \<open>The source tests \<^verbatim>\<open>ks\<close> twice and never compares \<^verbatim>\<open>kd\<close>.\<close>

definition eval_spring_step :: "spring_sel option \<Rightarrow> Spring \<Rightarrow> spring_sel option" where
  "eval_spring_step acc s =
     (if isSelected s then
        (case acc of
           Some l \<Rightarrow>
             (let l1 = (if ks_same l \<and> ks s \<noteq> sel_ks l
                        then l\<lparr>ks_same := False\<rparr> else l);
                  l2 = (if ks_same l1 \<and> ks s \<noteq> sel_ks l1
                        then l1\<lparr>ks_same := False\<rparr> else l1)
              in Some l2)
         | None \<Rightarrow>
             Some \<lparr>sel_ks = ks s, ks_same = True, sel_kd = kd s, kd_same = True\<rparr>)
      else acc)"

text \<open>The two \<^verbatim>\<open>if (found)\<close> blocks; the flag is \<^verbatim>\<open>changed\<close>.\<close>

definition eval_mass_apply :: "mass_sel option \<Rightarrow> State \<times> bool \<Rightarrow> State \<times> bool" where
  "eval_mass_apply acc sc =
     (case acc of
        None \<Rightarrow> sc
      | Some l \<Rightarrow>
          (let sc1 = (if mass_same l \<and> sel_mass l \<noteq> cur_mass (fst sc)
                      then ((fst sc)\<lparr>cur_mass := sel_mass l\<rparr>, True) else sc);
               sc2 = (if elas_same l \<and> sel_elas l \<noteq> cur_rest (fst sc1)
                      then ((fst sc1)\<lparr>cur_rest := sel_elas l\<rparr>, True) else sc1);
               sc3 = (if fix_same l \<and> sel_fix l \<noteq> fix_mass (fst sc2)
                      then ((fst sc2)\<lparr>fix_mass := sel_fix l\<rparr>, True) else sc2)
           in sc3))"

definition eval_spring_apply :: "spring_sel option \<Rightarrow> State \<times> bool \<Rightarrow> State \<times> bool" where
  "eval_spring_apply acc sc =
     (case acc of
        None \<Rightarrow> sc
      | Some l \<Rightarrow>
          (let sc1 = (if ks_same l \<and> sel_ks l \<noteq> cur_ks (fst sc)
                      then ((fst sc)\<lparr>cur_ks := sel_ks l\<rparr>, True) else sc);
               sc2 = (if kd_same l \<and> sel_kd l \<noteq> cur_kd (fst sc1)
                      then ((fst sc1)\<lparr>cur_kd := sel_kd l\<rparr>, True) else sc1)
           in sc2))"

definition evalSelection :: "System \<Rightarrow> bool \<times> System" where
  "evalSelection sys =
     (let sc1 = eval_mass_apply (foldl eval_mass_step None (masses sys)) (state sys, False);
          sc2 = eval_spring_apply (foldl eval_spring_step None (springs sys)) sc1
      in (snd sc2, sys\<lparr>state := fst sc2\<rparr>))"

subsection \<open>Frame pacing (\<^verbatim>\<open>phys.cpp\<close>, the tail of \<^verbatim>\<open>Physics::advance\<close>)\<close>

text \<open>
  The accumulator \<^verbatim>\<open>time_elapsed\<close> is a static \<^verbatim>\<open>double\<close>: every \<^verbatim>\<open>+=\<close> and \<^verbatim>\<open>-=\<close>
  on it rounds, and the literal \<^verbatim>\<open>0.05\<close> stands for the double nearest to it. The
  pacer is therefore modelled over the arithmetic of doubles, which is a parameter: a
  finite double is the real number it denotes, \<open>dadd a b\<close> and \<open>dsub a b\<close> are the
  doubles that \<^verbatim>\<open>a + b\<close> and \<^verbatim>\<open>a - b\<close> yield, and \<open>dlit d\<close> is the double a decimal
  literal \<open>d\<close> denotes. Comparing two finite doubles is exact.
\<close>

record Arith =
  dadd :: "real \<Rightarrow> real \<Rightarrow> real"
  dsub :: "real \<Rightarrow> real \<Rightarrow> real"
  dlit :: "real \<Rightarrow> real"

text \<open>
  The arithmetic of IEEE 754 binary64 with rounding to nearest, ties to even, on finite
  values (overflow to infinity is outside the model). \<open>bexp n v\<close> is the binary exponent
  \<open>\<lfloor>log\<^sub>2 v\<rfloor>\<close> of a positive \<open>v\<close>, found in at most \<open>n\<close> steps; a double has 53
  significant bits, so the last place of \<open>v\<close> has the exponent \<open>bexp v - 52\<close>, and not
  less than \<open>-1074\<close>, the exponent of the subnormal numbers. \<open>dbl v\<close> is the double
  nearest to \<open>v\<close>.
\<close>

fun bexp :: "nat \<Rightarrow> real \<Rightarrow> int" where
  "bexp 0 v = 0"
| "bexp (Suc n) v =
     (if 2 \<le> v then bexp n (v / 2) + 1 else if v < 1 then bexp n (v * 2) - 1 else 0)"

definition pow2 :: "int \<Rightarrow> real" where
  "pow2 e = (if 0 \<le> e then 2 ^ nat e else 1 / 2 ^ nat (- e))"

definition rne :: "real \<Rightarrow> int" where
  "rne q = (let f = \<lfloor>q\<rfloor>; r = q - of_int f in
            if r < 1 / 2 then f else if 1 / 2 < r then f + 1
            else if even f then f else f + 1)"

definition dbl :: "real \<Rightarrow> real" where
  "dbl v = (if v = 0 then 0
            else (let e = max (bexp 1100 \<bar>v\<bar> - 52) (- 1074)
                  in of_int (rne (v / pow2 e)) * pow2 e))"

definition ieee :: Arith where
  "ieee = \<lparr>dadd = (\<lambda>a b. dbl (a + b)), dsub = (\<lambda>a b. dbl (a - b)), dlit = dbl\<rparr>"

text \<open>
  \<^verbatim>\<open>time_elapsed += mst.cur_dt; if (time_elapsed > 0.05) { time_elapsed -= 0.05;
  num_since = 0; return true; } num_since++; if (num_since > 8) { num_since = 0;
  return true; } return false;\<close>
\<close>

definition frame_pacer :: "Arith \<Rightarrow> real \<Rightarrow> Statics \<Rightarrow> bool \<times> Statics" where
  "frame_pacer fp dt st =
     (let st1 = st\<lparr>time_elapsed := dadd fp (time_elapsed st) dt\<rparr> in
      if time_elapsed st1 > dlit fp 0.05
      then (True, st1\<lparr>time_elapsed := dsub fp (time_elapsed st1) (dlit fp 0.05),
                       num_since := 0\<rparr>)
      else
        (let st2 = st1\<lparr>num_since := num_since st1 + 1\<rparr> in
         if num_since st2 > 8 then (True, st2\<lparr>num_since := 0\<rparr>) else (False, st2)))"

text \<open>The statics before the first call.\<close>

definition statics0 :: Statics where
  "statics0 = \<lparr>num_since = 0, time_elapsed = 0\<rparr>"

text \<open>
  A sequence of calls of \<^verbatim>\<open>advance\<close>, seen from the pacer: the \<open>k\<close>-th call runs
  with step size \<open>dts ! k\<close>. The result is the list of returned flags and the statics
  after the last call.
\<close>

fun pacer_run :: "Arith \<Rightarrow> real list \<Rightarrow> Statics \<Rightarrow> bool list \<times> Statics" where
  "pacer_run fp [] st = ([], st)"
| "pacer_run fp (dt # dts) st =
     (let (r, st1) = frame_pacer fp dt st; (rs, st2) = pacer_run fp dts st1
      in (r # rs, st2))"

text \<open>
  The pacer as the specification words it, in the same arithmetic: the accumulator is
  \<^emph>\<open>reset\<close> when it exceeds 0.05, and a redraw is also due after 8 consecutive calls
  that were not due.
\<close>

definition frame_pacer_spec :: "Arith \<Rightarrow> real \<Rightarrow> Statics \<Rightarrow> bool \<times> Statics" where
  "frame_pacer_spec fp dt st =
     (let t = dadd fp (time_elapsed st) dt in
      if t > dlit fp 0.05 then (True, \<lparr>num_since = 0, time_elapsed = 0\<rparr>)
      else if num_since st \<ge> 8 then (True, \<lparr>num_since = 0, time_elapsed = t\<rparr>)
      else (False, \<lparr>num_since = num_since st + 1, time_elapsed = t\<rparr>))"

fun pacer_run_spec :: "Arith \<Rightarrow> real list \<Rightarrow> Statics \<Rightarrow> bool list \<times> Statics" where
  "pacer_run_spec fp [] st = ([], st)"
| "pacer_run_spec fp (dt # dts) st =
     (let (r, st1) = frame_pacer_spec fp dt st; (rs, st2) = pacer_run_spec fp dts st1
      in (r # rs, st2))"

text \<open>The number of calls at the end of a run that returned false.\<close>

definition trailing_false :: "bool list \<Rightarrow> nat" where
  "trailing_false rs = length (takeWhile Not (rev rs))"

subsection \<open>Well-formed links\<close>

text \<open>
  The indices stored in the entity store are in range: every entry of a parent list is
  a spring index, and both endpoints of an alive spring are mass indices. Under this
  condition no operation of the entity store reads out of range.
\<close>

definition wf_links :: "System \<Rightarrow> bool" where
  "wf_links sys =
     (list_all (\<lambda>m. list_all (\<lambda>p. 0 \<le> p \<and> p < springCount sys) (parents m)) (masses sys)
      \<and> list_all (\<lambda>s. isAlive s \<longrightarrow>
            0 \<le> m1 s \<and> m1 s < massCount sys \<and> 0 \<le> m2 s \<and> m2 s < massCount sys)
          (springs sys))"

subsection \<open>Concrete systems\<close>

text \<open>A mass record with every field zero, as raw memory for \<open>new_Mass\<close>.\<close>

definition zero_Mass :: Mass where
  "zero_Mass =
     \<lparr>status = 0, x = 0, y = 0, vx = 0, vy = 0, ax = 0, ay = 0, mass = 0, elastic = 0,
       radius = 0, parents = [], cur_x = 0, cur_y = 0, cur_vx = 0, cur_vy = 0, old_x =
       0, old_y = 0, old_vx = 0, old_vy = 0, test_x = 0, test_y = 0, test_vx = 0,
       test_vy = 0, k1x = 0, k1y = 0, k1vx = 0, k1vy = 0, k2x = 0, k2y = 0, k2vx = 0,
       k2vy = 0, k3x = 0, k3y = 0, k3vx = 0, k3vy = 0, k4x = 0, k4y = 0, k4vx = 0, k4vy
       = 0, k5x = 0, k5y = 0, k5vx = 0, k5vy = 0, k6x = 0, k6y = 0, k6vx = 0, k6vy = 0\<rparr>"

text \<open>\<^verbatim>\<open>State::reset\<close> (\<^verbatim>\<open>state.cpp\<close>): the parameters a new system starts with.\<close>

definition State_reset :: State where
  "State_reset =
     \<lparr>cur_mass = 1, cur_rest = 1, cur_ks = 1, cur_kd = 1, fix_mass = False,
      show_spring = True, center_id = - 1, force_enabled = (\<lambda>i. False),
      cur_grav_val = (\<lambda>i. if i = FR_GRAV then 10 else if i = FR_CMASS then 5
                          else if i = FR_PTATTRACT then 10 else 10000),
      cur_misc_val = (\<lambda>i. if i = FR_GRAV then 0 else if i = FR_CMASS then 2
                          else if i = FR_PTATTRACT then 0 else 1),
      cur_visc = 0, cur_stick = 0, cur_dt = DEF_TSTEP, cur_prec = 1,
      adaptive_step = False, grid_snap = False, cur_gsnap = 20,
      w_top = True, w_left = True, w_right = True, w_bottom = True, collide = False\<rparr>"

text \<open>
  Three masses joined in a triangle by three springs; spring 0 joins masses 0 and 1,
  spring 1 joins masses 1 and 2, spring 2 joins masses 0 and 2.
\<close>

definition ex_triangle :: System where
  "ex_triangle =
     \<lparr>state = State_reset,
      masses = [(new_Mass zero_Mass)\<lparr>parents := [0, 2]\<rparr>,
                (new_Mass zero_Mass)\<lparr>parents := [0, 1]\<rparr>,
                (new_Mass zero_Mass)\<lparr>parents := [1, 2]\<rparr>],
      springs = [new_Spring\<lparr>m1 := 0, m2 := 1\<rparr>, new_Spring\<lparr>m1 := 1, m2 := 2\<rparr>,
                 new_Spring\<lparr>m1 := 0, m2 := 2\<rparr>],
      fakeMass = 0, fakeSpring = 0\<rparr>"

subsection \<open>Screen radius (\<^verbatim>\<open>misc.h\<close>, \<^verbatim>\<open>misc.cpp\<close>)\<close>

text \<open>C++ integer division truncates towards zero.\<close>

definition cdiv :: "int \<Rightarrow> int \<Rightarrow> int" where
  "cdiv a b = sgn a * sgn b * (\<bar>a\<bar> div \<bar>b\<bar>)"

definition sphereSize :: "int \<Rightarrow> int" where
  "sphereSize rad0 =
     (let rad1 = cdiv (25 + 2 * rad0) 2;
          rad = (if rad1 < 15 then 15 else rad1);
          size1 = (if rad * 2 \<ge> 30 then cdiv (rad * 2 - 30) 10 else 0);
          size2 = (if size1 > 4 then 4 else size1)
      in size2)"

definition sphereRadius :: "int \<Rightarrow> int" where
  "sphereRadius sz = cdiv (sz * 10 + 30) 2"

definition screenRadius :: "int \<Rightarrow> int" where
  "screenRadius r = sphereRadius (sphereSize r)"

definition NAIL_SIZE :: int where "NAIL_SIZE = 4"

text \<open>
  Modelled from the spec: the macros \<^verbatim>\<open>COORD_DX\<close> and \<^verbatim>\<open>COORD_DY\<close> that
  \<^verbatim>\<open>phys.cpp\<close> applies to the two components of gravity are not among the sources.
  They are taken to be \<^verbatim>\<open>deltaX\<close> and \<^verbatim>\<open>deltaY\<close> of \<^verbatim>\<open>misc.h\<close> (the
  identity, and the negation that turns screen coordinates upside down), which is what
  "uniform gravity rotated by a configurable angle" needs. The general theorems below
  hold whatever these two functions are; the only examples that evaluate gravity are
  \<open>ex_floor\<close> and \<open>ex_slippery\<close>, where gravity acts along the \<open>y\<close> axis.
\<close>

definition COORD_DX :: "real \<Rightarrow> real" where "COORD_DX d = d"
definition COORD_DY :: "real \<Rightarrow> real" where "COORD_DY d = - d"

subsection \<open>Force accumulation (\<^verbatim>\<open>Physics::accumulateAccel\<close>)\<close>

definition DT_MIN :: real where "DT_MIN = 0.0001"
definition DT_MAX :: real where "DT_MAX = 0.5"
definition STICK_MAG :: real where "STICK_MAG = 1.0"

text \<open>The test \<^verbatim>\<open>(m.status & S_ALIVE) && !(m.status & S_FIXED)\<close> of every loop.\<close>

definition free :: "Mass \<Rightarrow> bool" where
  "free m = (status m AND S_ALIVE \<noteq> 0 \<and> \<not> (status m AND S_FIXED \<noteq> 0))"

text \<open>
  A loop \<^verbatim>\<open>for (i = 0; i < massCount(); i++)\<close> whose body reads and writes the mass
  \<open>i\<close> only: the body is applied to every mass, with its index.
\<close>

definition for_masses :: "(nat \<Rightarrow> Mass \<Rightarrow> Mass) \<Rightarrow> Mass list \<Rightarrow> Mass list" where
  "for_masses f ms = map (\<lambda>(i, m). f i m) (enumerate 0 ms)"

text \<open>
  Lines 41 and 47-55: the centre is the middle of the window, or the position of the
  centre mass when there is one and it is alive; a dead centre mass resets
  \<^verbatim>\<open>center_id\<close>. The result is \<open>(center_x, center_y, mst)\<close>.
\<close>

definition center_of :: "int \<Rightarrow> int \<Rightarrow> System \<Rightarrow> (real \<times> real \<times> State) option" where
  "center_of wd ht sys =
     (let mst = state sys; center_x = real_of_int wd / 2; center_y = real_of_int ht / 2 in
      if center_id mst \<ge> 0 then
        do {
          m \<leftarrow> getMass sys (center_id mst);
          Some (if status m AND S_ALIVE \<noteq> 0 then (x m, y m, mst)
                else (center_x, center_y, mst\<lparr>center_id := - 1\<rparr>))
        }
      else Some (center_x, center_y, mst))"

text \<open>Lines 57-64: gravity, \<open>(gx, gy)\<close>.\<close>

definition gravity :: "State \<Rightarrow> real \<times> real" where
  "gravity mst =
     (if force_enabled mst FR_GRAV then
        (let gval = cur_grav_val mst FR_GRAV; gmisc = cur_misc_val mst FR_GRAV in
         (COORD_DX (gval * sin (gmisc * pi / 180)), COORD_DY (gval * cos (gmisc * pi / 180))))
      else (0, 0))"

text \<open>
  Lines 72-81: the sums \<open>(msum, mixix, mixiy, mivix, miviy)\<close> over the free masses
  other than the centre mass.
\<close>

definition cmass_sums :: "State \<Rightarrow> Mass list \<Rightarrow> real \<times> real \<times> real \<times> real \<times> real" where
  "cmass_sums mst ms =
     foldl (\<lambda>(msum, mixix, mixiy, mivix, miviy) (i, m).
              if int i \<noteq> center_id mst \<and> free m
              then (msum + mass m, mixix + mass m * x m, mixiy + mass m * y m,
                    mivix + mass m * vx m, miviy + mass m * vy m)
              else (msum, mixix, mixiy, mivix, miviy))
       (0, 0, 0, 0, 0) (enumerate 0 ms)"

text \<open>Lines 66-95: the centre-of-mass force, \<open>(ogx, ogy)\<close>.\<close>

definition cmass_force :: "State \<Rightarrow> real \<Rightarrow> real \<Rightarrow> Mass list \<Rightarrow> real \<times> real" where
  "cmass_force mst center_x center_y ms =
     (if force_enabled mst FR_CMASS then
        (let gval = cur_grav_val mst FR_CMASS; gmisc = cur_misc_val mst FR_CMASS;
             (msum, mixix0, mixiy0, mivix0, miviy0) = cmass_sums mst ms
         in if msum \<noteq> 0 then
              (let mixix1 = mixix0 / msum; mixiy1 = mixiy0 / msum;
                   mivix = mivix0 / msum; miviy = miviy0 / msum;
                   mixix = mixix1 - center_x; mixiy = mixiy1 - center_y
               in (0 - (gval * mixix + gmisc * mivix) / msum,
                   0 - (gval * mixiy + gmisc * miviy) / msum))
            else (0, 0))
      else (0, 0))"

text \<open>Lines 97-110: gravity, centre-of-mass force and viscous drag on every free mass.\<close>

definition accel_body :: "State \<Rightarrow> real \<times> real \<Rightarrow> real \<times> real \<Rightarrow> nat \<Rightarrow> Mass \<Rightarrow> Mass" where
  "accel_body mst g og i m =
     (if free m then
        (if int i \<noteq> center_id mst
         then m\<lparr>ax := fst g + fst og - cur_visc mst * vx m,
                ay := snd g + snd og - cur_visc mst * vy m\<rparr>
         else m\<lparr>ax := fst g - cur_visc mst * vx m,
                ay := snd g - cur_visc mst * vy m\<rparr>)
      else m)"

text \<open>
  Lines 112-138: point attraction. \<^verbatim>\<open>pow\<close> is \<open>powr\<close>; the two agree on a positive
  base.
\<close>

definition accel_ptattract :: "State \<Rightarrow> real \<Rightarrow> real \<Rightarrow> Mass \<Rightarrow> Mass" where
  "accel_ptattract mst center_x center_y m =
     (if free m then
        (let gval = cur_grav_val mst FR_PTATTRACT; gmisc = cur_misc_val mst FR_PTATTRACT;
             center_rad = 1;
             dx0 = center_x - x m; dy0 = center_y - y m;
             mag0 = sqrt (dx0 * dx0 + dy0 * dy0);
             close = (mag0 < real_of_int (radius m) + center_rad);
             dx = (if close then dx0 * (mag0 / (real_of_int (radius m) + center_rad)) else dx0);
             dy = (if close then dy0 * (mag0 / (real_of_int (radius m) + center_rad)) else dy0);
             mag = (if close then real_of_int (radius m) + center_rad else mag0);
             fmag = gval / (mag powr gmisc)
         in m\<lparr>ax := ax m + fmag * dx / mag, ay := ay m + fmag * dy / mag\<rparr>)
      else m)"

text \<open>
  Lines 140-178: wall attraction or repulsion. One wall adds \<open>gval / dist^gmisc\<close> for
  its clearance \<open>dist\<close>, raised to 1 when smaller, and nothing when the clearance is
  negative or the wall is absent.
\<close>

definition wall_pull :: "bool \<Rightarrow> real \<Rightarrow> real \<Rightarrow> real \<Rightarrow> real" where
  "wall_pull present dist0 gval gmisc =
     (if present \<and> dist0 \<ge> 0 then
        (let dist1 = (if dist0 < 1 then 1 else dist0); dist = dist1 powr gmisc
         in gval / dist)
      else 0)"

definition accel_wall :: "int \<Rightarrow> int \<Rightarrow> State \<Rightarrow> Mass \<Rightarrow> Mass" where
  "accel_wall wd ht mst m =
     (let gval = - cur_grav_val mst FR_WALL; gmisc = cur_misc_val mst FR_WALL;
          rad = screenRadius (radius m) in
      if free m then
        (let dax0 = 0; day0 = 0;
             dax1 = dax0 - wall_pull (w_left mst) (x m - real_of_int rad) gval gmisc;
             dax2 = dax1 + wall_pull (w_right mst) (real_of_int (wd - rad) - x m) gval gmisc;
             day1 = day0 + wall_pull (w_top mst) (real_of_int (ht - rad) - y m) gval gmisc;
             day2 = day1 - wall_pull (w_bottom mst) (y m - real_of_int rad) gval gmisc
         in m\<lparr>ax := ax m + dax2, ay := ay m + day2\<rparr>)
      else m)"

text \<open>
  Lines 195-205: the force of a spring along both axes, \<open>(forcex, forcey)\<close>, from its
  two endpoint masses; it is only computed when the endpoints do not coincide.
\<close>

definition spring_force :: "Spring \<Rightarrow> Mass \<Rightarrow> Mass \<Rightarrow> real \<times> real" where
  "spring_force s a b =
     (let dx = x a - x b; dy = y a - y b;
          mag = sqrt (dx * dx + dy * dy);
          force0 = ks s * (restlen s - mag);
          force1 = (if kd s \<noteq> 0
                    then force0 - kd s * (((vx a - vx b) * dx + (vy a - vy b) * dy) / mag)
                    else force0);
          force = force1 / mag
      in (force * dx, force * dy))"

text \<open>
  Lines 183-216, the body of the spring loop for one spring. The two masses are read
  through references, so the second update writes to the list the first one left.
\<close>

definition spring_accel :: "Spring \<Rightarrow> System \<Rightarrow> System option" where
  "spring_accel s sys =
     (if status s AND S_ALIVE \<noteq> 0 then
        do {
          a \<leftarrow> getMass sys (m1 s);
          b \<leftarrow> getMass sys (m2 s);
          (let dx = x a - x b; dy = y a - y b in
           if dx \<noteq> 0 \<or> dy \<noteq> 0 then
             (let forcex = fst (spring_force s a b); forcey = snd (spring_force s a b);
                  mass1 = mass a; mass2 = mass b;
                  sys1 = putMass (m1 s)
                           (a\<lparr>ax := ax a + forcex / mass1, ay := ay a + forcey / mass1\<rparr>) sys;
                  b1 = masses sys1 ! nat (m2 s);
                  sys2 = putMass (m2 s)
                           (b1\<lparr>ax := ax b1 - forcex / mass2, ay := ay b1 - forcey / mass2\<rparr>) sys1
              in Some sys2)
           else Some sys)
        }
      else Some sys)"

fun spring_loop :: "Spring list \<Rightarrow> System \<Rightarrow> System option" where
  "spring_loop [] sys = Some sys"
| "spring_loop (s # ss) sys = do { sys1 \<leftarrow> spring_accel s sys; spring_loop ss sys1 }"

definition accumulateAccel :: "int \<Rightarrow> int \<Rightarrow> System \<Rightarrow> System option" where
  "accumulateAccel wd ht sys =
     do {
       (center_x, center_y, mst) \<leftarrow> center_of wd ht sys;
       (let g = gravity mst;
            og = cmass_force mst center_x center_y (masses sys);
            ms1 = for_masses (accel_body mst g og) (masses sys);
            ms2 = (if force_enabled mst FR_PTATTRACT
                   then for_masses (\<lambda>i. accel_ptattract mst center_x center_y) ms1 else ms1);
            ms3 = (if force_enabled mst FR_WALL
                   then for_masses (\<lambda>i. accel_wall wd ht mst) ms2 else ms2)
        in spring_loop (springs sys) (sys\<lparr>state := mst, masses := ms3\<rparr>))
     }"

subsection \<open>Fixed-step integrator (\<^verbatim>\<open>Physics::rungeKutta\<close>)\<close>

text \<open>
  Every loop of the integrators has the form
  \<^verbatim>\<open>for (i...) { Mass& m = getMass(i); if (free) { ... } }\<close> and touches the mass
  \<open>i\<close> only; \<open>on_free f\<close> is such a loop with body \<open>f\<close>.
\<close>

definition on_free :: "(Mass \<Rightarrow> Mass) \<Rightarrow> System \<Rightarrow> System" where
  "on_free f sys = sys\<lparr>masses := for_masses (\<lambda>i m. if free m then f m else m) (masses sys)\<rparr>"

definition rk_k1 :: "real \<Rightarrow> Mass \<Rightarrow> Mass" where
  "rk_k1 h m =
     (let a = m\<lparr>cur_x := x m, cur_y := y m, cur_vx := vx m, cur_vy := vy m\<rparr>;
          b = a\<lparr>k1x := vx a * h, k1y := vy a * h, k1vx := ax a * h, k1vy := ay a * h\<rparr>
      in b\<lparr>x := cur_x b + k1x b / 2, y := cur_y b + k1y b / 2,
            vx := cur_vx b + k1vx b / 2, vy := cur_vy b + k1vy b / 2\<rparr>)"

definition rk_k2 :: "real \<Rightarrow> Mass \<Rightarrow> Mass" where
  "rk_k2 h m =
     (let b = m\<lparr>k2x := vx m * h, k2y := vy m * h, k2vx := ax m * h, k2vy := ay m * h\<rparr>
      in b\<lparr>x := cur_x b + k2x b / 2, y := cur_y b + k2y b / 2,
            vx := cur_vx b + k2vx b / 2, vy := cur_vy b + k2vy b / 2\<rparr>)"

definition rk_k3 :: "real \<Rightarrow> Mass \<Rightarrow> Mass" where
  "rk_k3 h m =
     (let b = m\<lparr>k3x := vx m * h, k3y := vy m * h, k3vx := ax m * h, k3vy := ay m * h\<rparr>
      in b\<lparr>x := cur_x b + k3x b, y := cur_y b + k3y b,
            vx := cur_vx b + k3vx b, vy := cur_vy b + k3vy b\<rparr>)"

definition rk_k4 :: "real \<Rightarrow> Mass \<Rightarrow> Mass" where
  "rk_k4 h m = m\<lparr>k4x := vx m * h, k4y := vy m * h, k4vx := ax m * h, k4vy := ay m * h\<rparr>"

definition rk_next :: "bool \<Rightarrow> Mass \<Rightarrow> Mass" where
  "rk_next testloc m =
     (if testloc then
        m\<lparr>test_x := cur_x m + (k1x m / 2 + k2x m + k3x m + k4x m / 2) / 3,
          test_y := cur_y m + (k1y m / 2 + k2y m + k3y m + k4y m / 2) / 3,
          test_vx := cur_vx m + (k1vx m / 2 + k2vx m + k3vx m + k4vx m / 2) / 3,
          test_vy := cur_vy m + (k1vy m / 2 + k2vy m + k3vy m + k4vy m / 2) / 3\<rparr>
      else
        m\<lparr>x := cur_x m + (k1x m / 2 + k2x m + k3x m + k4x m / 2) / 3,
          y := cur_y m + (k1y m / 2 + k2y m + k3y m + k4y m / 2) / 3,
          vx := cur_vx m + (k1vx m / 2 + k2vx m + k3vx m + k4vx m / 2) / 3,
          vy := cur_vy m + (k1vy m / 2 + k2vy m + k3vy m + k4vy m / 2) / 3\<rparr>)"

definition rungeKutta :: "int \<Rightarrow> int \<Rightarrow> real \<Rightarrow> bool \<Rightarrow> System \<Rightarrow> System option" where
  "rungeKutta wd ht h testloc sys =
     do {
       s1 \<leftarrow> accumulateAccel wd ht sys;
       s2 \<leftarrow> accumulateAccel wd ht (on_free (rk_k1 h) s1);
       s3 \<leftarrow> accumulateAccel wd ht (on_free (rk_k2 h) s2);
       s4 \<leftarrow> accumulateAccel wd ht (on_free (rk_k3 h) s3);
       Some (on_free (rk_next testloc) (on_free (rk_k4 h) s4))
     }"

subsection \<open>Adaptive integrator (\<^verbatim>\<open>Physics::adaptiveRungeKutta\<close>)\<close>

definition ark_k1 :: "real \<Rightarrow> Mass \<Rightarrow> Mass" where
  "ark_k1 h m =
     (let a = m\<lparr>cur_x := x m, cur_y := y m, cur_vx := vx m, cur_vy := vy m\<rparr>;
          b = a\<lparr>k1x := vx a * h, k1y := vy a * h, k1vx := ax a * h, k1vy := ay a * h\<rparr>
      in b\<lparr>x := cur_x b + 0.2 * k1x b, y := cur_y b + 0.2 * k1y b,
            vx := cur_vx b + 0.2 * k1vx b, vy := cur_vy b + 0.2 * k1vy b\<rparr>)"

definition ark_k2 :: "real \<Rightarrow> Mass \<Rightarrow> Mass" where
  "ark_k2 h m =
     (let b = m\<lparr>k2x := vx m * h, k2y := vy m * h, k2vx := ax m * h, k2vy := ay m * h\<rparr>
      in b\<lparr>x := cur_x b + (3 / 40) * k1x b + (9 / 40) * k2x b,
            y := cur_y b + (3 / 40) * k1y b + (9 / 40) * k2y b,
            vx := cur_vx b + (3 / 40) * k1vx b + (9 / 40) * k2vx b,
            vy := cur_vy b + (3 / 40) * k1vy b + (9 / 40) * k2vy b\<rparr>)"

definition ark_k3 :: "real \<Rightarrow> Mass \<Rightarrow> Mass" where
  "ark_k3 h m =
     (let b = m\<lparr>k3x := vx m * h, k3y := vy m * h, k3vx := ax m * h, k3vy := ay m * h\<rparr>
      in b\<lparr>x := cur_x b + 0.3 * k1x b + (- 0.9) * k2x b + 1.2 * k3x b,
            y := cur_y b + 0.3 * k1y b + (- 0.9) * k2y b + 1.2 * k3y b,
            vx := cur_vx b + 0.3 * k1vx b + (- 0.9) * k2vx b + 1.2 * k3vx b,
            vy := cur_vy b + 0.3 * k1vy b + (- 0.9) * k2vy b + 1.2 * k3vy b\<rparr>)"

definition ark_k4 :: "real \<Rightarrow> Mass \<Rightarrow> Mass" where
  "ark_k4 h m =
     (let b = m\<lparr>k4x := vx m * h, k4y := vy m * h, k4vx := ax m * h, k4vy := ay m * h\<rparr>
      in b\<lparr>x := cur_x b + (- 11 / 54) * k1x b + 2.5 * k2x b
                 + (- 70 / 27) * k3x b + (35 / 27) * k4x b,
            y := cur_y b + (- 11 / 54) * k1y b + 2.5 * k2y b
                 + (- 70 / 27) * k3y b + (35 / 27) * k4y b,
            vx := cur_vx b + (- 11 / 54) * k1vx b + 2.5 * k2vx b
                 + (- 70 / 27) * k3vx b + (35 / 27) * k4vx b,
            vy := cur_vy b + (- 11 / 54) * k1vy b + 2.5 * k2vy b
                 + (- 70 / 27) * k3vy b + (35 / 27) * k4vy b\<rparr>)"

definition ark_k5 :: "real \<Rightarrow> Mass \<Rightarrow> Mass" where
  "ark_k5 h m =
     (let b = m\<lparr>k5x := vx m * h, k5y := vy m * h, k5vx := ax m * h, k5vy := ay m * h\<rparr>
      in b\<lparr>x := cur_x b + (1631 / 55926) * k1x b + (175 / 512) * k2x b
                 + (575 / 13824) * k3x b + (44275 / 110592) * k4x b + (253 / 4096) * k5x b,
            y := cur_y b + (1631 / 55926) * k1y b + (175 / 512) * k2y b
                 + (575 / 13824) * k3y b + (44275 / 110592) * k4y b + (253 / 4096) * k5y b,
            vx := cur_vx b + (1631 / 55926) * k1vx b + (175 / 512) * k2vx b
                 + (575 / 13824) * k3vx b + (44275 / 110592) * k4vx b + (253 / 4096) * k5vx b,
            vy := cur_vy b + (1631 / 55926) * k1vy b + (175 / 512) * k2vy b
                 + (575 / 13824) * k3vy b + (44275 / 110592) * k4vy b
                 + (253 / 4096) * k5vy b\<rparr>)"

definition ark_k6 :: "real \<Rightarrow> Mass \<Rightarrow> Mass" where
  "ark_k6 h m = m\<lparr>k6x := vx m * h, k6y := vy m * h, k6vx := ax m * h, k6vy := ay m * h\<rparr>"

text \<open>The error estimate of one mass (lines 460-476).\<close>

definition ark_err :: "Mass \<Rightarrow> real" where
  "ark_err m =
     (let errx = (37 / 378 - 2825 / 27648) * k1x m + (250 / 621 - 18575 / 48384) * k3x m
                 + (125 / 594 - 13525 / 55296) * k4x m + (- 277 / 14336) * k5x m
                 + (512 / 1771 - 0.25) * k6x m;
          erry = (37 / 378 - 2825 / 27648) * k1y m + (250 / 621 - 18575 / 48384) * k3y m
                 + (125 / 594 - 13525 / 55296) * k4y m + (- 277 / 14336) * k5y m
                 + (512 / 1771 - 0.25) * k6y m;
          errvx = (37 / 378 - 2825 / 27648) * k1vx m + (250 / 621 - 18575 / 48384) * k3vx m
                 + (125 / 594 - 13525 / 55296) * k4vx m + (- 277 / 14336) * k5vx m
                 + (512 / 1771 - 0.25) * k6vx m;
          errvy = (37 / 378 - 2825 / 27648) * k1vy m + (250 / 621 - 18575 / 48384) * k3vy m
                 + (125 / 594 - 13525 / 55296) * k4vy m + (- 277 / 14336) * k5vy m
                 + (512 / 1771 - 0.25) * k6vy m
      in \<bar>errx\<bar> + \<bar>erry\<bar> + \<bar>errvx\<bar> + \<bar>errvy\<bar>)"

text \<open>
  Lines 455-484: the largest error of a free mass, not below 0.00001, divided by the
  precision \<^verbatim>\<open>cur_prec\<close>.
\<close>

definition ark_maxerr :: "System \<Rightarrow> real" where
  "ark_maxerr sys =
     foldl (\<lambda>maxerr m. if free m then (if ark_err m > maxerr then ark_err m else maxerr)
                        else maxerr)
       0.00001 (masses sys)
     / cur_prec (state sys)"

text \<open>Lines 326-331: the step size is clamped to \<open>[DT_MIN, DT_MAX]\<close>.\<close>

definition ark_clamp :: "System \<Rightarrow> System" where
  "ark_clamp sys =
     (let mst = state sys;
          mst1 = (if cur_dt mst > DT_MAX then mst\<lparr>cur_dt := DT_MAX\<rparr> else mst);
          mst2 = (if cur_dt mst1 < DT_MIN then mst1\<lparr>cur_dt := DT_MIN\<rparr> else mst1)
      in sys\<lparr>state := mst2\<rparr>)"

text \<open>
  Lines 326-453: from the label \<^verbatim>\<open>restart\<close> to the end of the k6 loop. The step
  \<open>h\<close> is the clamped \<^verbatim>\<open>cur_dt\<close>.
\<close>

definition ark_stages :: "int \<Rightarrow> int \<Rightarrow> System \<Rightarrow> System option" where
  "ark_stages wd ht sys =
     (let sys0 = ark_clamp sys; h = cur_dt (state sys0) in
      do {
        s1 \<leftarrow> accumulateAccel wd ht sys0;
        s2 \<leftarrow> accumulateAccel wd ht (on_free (ark_k1 h) s1);
        s3 \<leftarrow> accumulateAccel wd ht (on_free (ark_k2 h) s2);
        s4 \<leftarrow> accumulateAccel wd ht (on_free (ark_k3 h) s3);
        s5 \<leftarrow> accumulateAccel wd ht (on_free (ark_k4 h) s4);
        s6 \<leftarrow> accumulateAccel wd ht (on_free (ark_k5 h) s5);
        Some (on_free (ark_k6 h) s6)
      })"

text \<open>Lines 490-498: every free mass goes back to the values saved in \<^verbatim>\<open>old_*\<close>.\<close>

definition ark_rollback :: "Mass \<Rightarrow> Mass" where
  "ark_rollback m = m\<lparr>x := old_x m, y := old_y m, vx := old_vx m, vy := old_vy m\<rparr>"

text \<open>Lines 506-521: the fifth-order combination becomes the new position and velocity.\<close>

definition ark_next :: "Mass \<Rightarrow> Mass" where
  "ark_next m =
     m\<lparr>x := cur_x m + (37 / 378) * k1x m + (250 / 621) * k3x m
            + (125 / 594) * k4x m + (512 / 1771) * k6x m,
       y := cur_y m + (37 / 378) * k1y m + (250 / 621) * k3y m
            + (125 / 594) * k4y m + (512 / 1771) * k6y m,
       vx := cur_vx m + (37 / 378) * k1vx m + (250 / 621) * k3vx m
            + (125 / 594) * k4vx m + (512 / 1771) * k6vx m,
       vy := cur_vy m + (37 / 378) * k1vy m + (250 / 621) * k3vy m
            + (125 / 594) * k4vy m + (512 / 1771) * k6vy m\<rparr>"

definition scale_dt :: "real \<Rightarrow> System \<Rightarrow> System" where
  "scale_dt c sys = sys\<lparr>state := (state sys)\<lparr>cur_dt := cur_dt (state sys) * c\<rparr>\<rparr>"

text \<open>
  One pass through the body of \<^verbatim>\<open>adaptiveRungeKutta\<close>, from the label
  \<^verbatim>\<open>restart\<close> either to \<^verbatim>\<open>goto restart\<close> (the attempt is rejected; the result
  carries the state the next pass starts from) or to the end of the function (the
  attempt is accepted; the result carries the final state).
\<close>

datatype outcome = Accepted System | Rejected System

definition ark_pass :: "int \<Rightarrow> int \<Rightarrow> System \<Rightarrow> outcome option" where
  "ark_pass wd ht sys =
     do {
       s6 \<leftarrow> ark_stages wd ht sys;
       (let maxerr = ark_maxerr s6 in
        if maxerr < 1 then
          Some (Accepted (on_free ark_next (scale_dt (0.9 * exp (- ln maxerr / 8)) s6)))
        else if cur_dt (state s6) > DT_MIN then
          Some (Rejected (scale_dt (0.9 * exp (- ln maxerr / 4)) (on_free ark_rollback s6)))
        else Some (Accepted (on_free ark_next s6)))
     }"

subsection \<open>Termination of the adaptive step\<close>

text \<open>
  The force accumulator never writes \<^verbatim>\<open>cur_dt\<close>; a rejected pass leaves a step
  size of at most 0.9 times the clamped one, so the number of passes is bounded by the
  number of times \<open>DT_MAX\<close> can be multiplied by 0.9 before it reaches \<open>DT_MIN\<close>.
\<close>

lemma spring_accel_state:
  "spring_accel s sys = Some sys' \<Longrightarrow> state sys' = state sys"
  by (auto simp: spring_accel_def putMass_def Let_def split: if_splits bind_splits)

lemma spring_loop_state:
  "spring_loop ss sys = Some sys' \<Longrightarrow> state sys' = state sys"
proof (induction ss arbitrary: sys)
  case Nil
  then show ?case by simp
next
  case (Cons s ss)
  then obtain sys1 where a: "spring_accel s sys = Some sys1" and b: "spring_loop ss sys1 = Some sys'"
    by (auto split: bind_splits)
  from spring_accel_state [OF a] Cons.IH [OF b] show ?case by simp
qed

lemma accumulateAccel_cur_dt:
  assumes "accumulateAccel wd ht sys = Some sys'"
  shows "cur_dt (state sys') = cur_dt (state sys)"
proof -
  from assms obtain cx cy mst ms3 where c: "center_of wd ht sys = Some (cx, cy, mst)"
    and l: "spring_loop (springs sys) (sys\<lparr>state := mst, masses := ms3\<rparr>) = Some sys'"
    by (auto simp: accumulateAccel_def Let_def split: bind_splits prod.splits)
  from c have "cur_dt mst = cur_dt (state sys)"
    by (auto simp: center_of_def Let_def split: if_splits bind_splits)
  with spring_loop_state [OF l] show ?thesis by simp
qed

lemma on_free_frame [simp]:
  "state (on_free f sys) = state sys" "springs (on_free f sys) = springs sys"
  "fakeMass (on_free f sys) = fakeMass sys" "fakeSpring (on_free f sys) = fakeSpring sys"
  by (simp_all add: on_free_def)

lemma ark_clamp_cur_dt:
  "cur_dt (state (ark_clamp sys)) =
     (if cur_dt (state sys) > DT_MAX then DT_MAX
      else if cur_dt (state sys) < DT_MIN then DT_MIN else cur_dt (state sys))"
  by (simp add: ark_clamp_def Let_def DT_MAX_def DT_MIN_def)

lemma ark_clamp_bounds:
  "DT_MIN \<le> cur_dt (state (ark_clamp sys))" "cur_dt (state (ark_clamp sys)) \<le> DT_MAX"
  by (simp_all add: ark_clamp_cur_dt DT_MAX_def DT_MIN_def)

lemma ark_stages_cur_dt:
  assumes "ark_stages wd ht sys = Some sys'"
  shows "cur_dt (state sys') = cur_dt (state (ark_clamp sys))"
  using assms
  by (auto simp: ark_stages_def Let_def split: bind_splits dest!: accumulateAccel_cur_dt)

text \<open>An upper bound on the passes still to come, from the step size.\<close>

definition ark_steps :: "real \<Rightarrow> nat" where
  "ark_steps dt =
     (if dt \<le> DT_MIN then 0
      else Suc (nat \<lfloor>ln (min dt DT_MAX / DT_MIN) / ln (10 / 9)\<rfloor>))"

lemma ark_steps_decrease:
  assumes "DT_MIN < h" "h \<le> DT_MAX" "d \<le> 0.9 * h"
  shows "ark_steps d < ark_steps h"
proof (cases "d \<le> DT_MIN")
  case True
  with assms show ?thesis by (simp add: ark_steps_def)
next
  case False
  hence d: "DT_MIN < d" by simp
  have pos: "0 < DT_MIN" by (simp add: DT_MIN_def)
  from assms pos have hpos: "0 < h" by simp
  from d assms hpos have dh: "d \<le> h" "d \<le> DT_MAX" by simp_all
  have l: "0 < ln (10 / 9 :: real)" by simp
  define L where "L z = ln (z / DT_MIN) / ln (10 / 9)" for z :: real
  have "d / DT_MIN \<le> 0.9 * h / DT_MIN"
    using pos assms(3) by (intro divide_right_mono) simp_all
  moreover have "0 < d / DT_MIN" using d pos by simp
  ultimately have "ln (d / DT_MIN) \<le> ln (0.9 * h / DT_MIN)"
    by (rule ln_mono)
  also have "0.9 * h / DT_MIN = (h / DT_MIN) * (9 / 10)" by simp
  also have "ln ((h / DT_MIN) * (9 / 10)) = ln (h / DT_MIN) + ln (9 / 10)"
    by (rule ln_mult_pos) (use hpos pos in simp_all)
  also have "ln (9 / 10 :: real) = - ln (10 / 9)"
    using ln_inverse [of "10 / 9 :: real"] by simp
  finally have "ln (d / DT_MIN) \<le> ln (h / DT_MIN) - ln (10 / 9)" by simp
  hence "L d \<le> L h - 1"
    using l unfolding L_def by (simp add: field_simps)
  hence fl: "\<lfloor>L d\<rfloor> \<le> \<lfloor>L h\<rfloor> - 1"
    by (metis floor_mono floor_diff_one)
  have "0 < ln (d / DT_MIN)" using d pos by simp
  hence "0 \<le> L d" using l unfolding L_def by simp
  hence "0 \<le> \<lfloor>L d\<rfloor>" by simp
  with fl have "nat \<lfloor>L d\<rfloor> < nat \<lfloor>L h\<rfloor>" by linarith
  with d assms dh show ?thesis
    by (simp add: ark_steps_def L_def min_def)
qed

lemma ark_pass_Rejected:
  assumes "ark_pass wd ht sys = Some (Rejected s')"
  shows "\<exists>s6. ark_stages wd ht sys = Some s6 \<and> 1 \<le> ark_maxerr s6
           \<and> DT_MIN < cur_dt (state (ark_clamp sys))
           \<and> s' = scale_dt (0.9 * exp (- ln (ark_maxerr s6) / 4)) (on_free ark_rollback s6)"
  using assms ark_stages_cur_dt [of wd ht sys]
  by (auto simp: ark_pass_def Let_def split: bind_splits if_splits)

lemma ark_pass_decreases:
  assumes "ark_pass wd ht sys = Some (Rejected s')"
  shows "ark_steps (cur_dt (state s')) < ark_steps (cur_dt (state sys))"
proof -
  from ark_pass_Rejected [OF assms] obtain s6 where
    s6: "ark_stages wd ht sys = Some s6" and me: "1 \<le> ark_maxerr s6"
    and h: "DT_MIN < cur_dt (state (ark_clamp sys))"
    and s': "s' = scale_dt (0.9 * exp (- ln (ark_maxerr s6) / 4)) (on_free ark_rollback s6)"
    by blast
  define hh where "hh = cur_dt (state (ark_clamp sys))"
  have dt': "cur_dt (state s') = hh * (0.9 * exp (- ln (ark_maxerr s6) / 4))"
    by (simp add: s' scale_dt_def ark_stages_cur_dt [OF s6] hh_def)
  from me have "exp (- ln (ark_maxerr s6) / 4) \<le> 1" by simp
  moreover have "0 < hh" using h by (simp add: hh_def DT_MIN_def)
  ultimately have "cur_dt (state s') \<le> 0.9 * hh"
    unfolding dt' by (simp add: mult_left_le)
  with h ark_clamp_bounds(2) [of sys]
  have "ark_steps (cur_dt (state s')) < ark_steps hh"
    unfolding hh_def by (intro ark_steps_decrease) simp_all
  moreover have "ark_steps hh = ark_steps (cur_dt (state sys))"
    using h by (auto simp: hh_def ark_clamp_cur_dt ark_steps_def min_def DT_MIN_def DT_MAX_def
        split: if_splits)
  ultimately show ?thesis by simp
qed

text \<open>
  \<^verbatim>\<open>adaptiveRungeKutta\<close>: the passes are repeated until one is accepted.
\<close>

function adaptiveRungeKutta :: "int \<Rightarrow> int \<Rightarrow> System \<Rightarrow> System option" where
  "adaptiveRungeKutta wd ht sys =
     (case ark_pass wd ht sys of
        None \<Rightarrow> None
      | Some (Accepted s) \<Rightarrow> Some s
      | Some (Rejected s) \<Rightarrow> adaptiveRungeKutta wd ht s)"
  by pat_completeness auto
termination
  by (relation "measure (\<lambda>(wd, ht, sys). ark_steps (cur_dt (state sys)))")
     (simp_all add: ark_pass_decreases)

subsection \<open>The simulation step (\<^verbatim>\<open>Physics::advance\<close>)\<close>

text \<open>Lines 531-540: the values before the step are saved in \<^verbatim>\<open>old_*\<close>.\<close>

definition save_old :: "Mass \<Rightarrow> Mass" where
  "save_old m = m\<lparr>old_x := x m, old_y := y m, old_vx := vx m, old_vy := vy m\<rparr>"

text \<open>Lines 543-551: is any spring alive?\<close>

definition any_spring :: "System \<Rightarrow> bool" where
  "any_spring sys = list_ex (\<lambda>s. status s AND S_ALIVE \<noteq> 0) (springs sys)"

text \<open>Lines 542-561: the choice of the integrator.\<close>

definition integrate :: "int \<Rightarrow> int \<Rightarrow> System \<Rightarrow> System option" where
  "integrate wd ht sys =
     (if adaptive_step (state sys) then
        (if any_spring sys then adaptiveRungeKutta wd ht sys
         else rungeKutta wd ht DEF_TSTEP False
                (sys\<lparr>state := (state sys)\<lparr>cur_dt := DEF_TSTEP\<rparr>\<rparr>))
      else rungeKutta wd ht (cur_dt (state sys)) False sys)"

text \<open>
  Lines 578-601, "check if stuck to a wall". The result is the pinned mass when one of
  the two \<^verbatim>\<open>continue\<close> statements is reached, and \<open>None\<close> when control falls
  through to the bounce code.
\<close>

definition pinned :: "Mass \<Rightarrow> Mass" where
  "pinned m = (m\<lparr>vy := 0, vx := 0\<rparr>)\<lparr>x := old_x m, y := old_y m\<rparr>"

text \<open>
  The two proximity tests of the stick code: the edge of the mass, at the saved position
  \<open>px\<close> (or \<open>py\<close>), is within 0.5 of an enabled left or right wall (bottom or top
  wall).
\<close>

definition near_side_wall :: "int \<Rightarrow> State \<Rightarrow> int \<Rightarrow> real \<Rightarrow> bool" where
  "near_side_wall wd mst rad px =
     ((w_left mst \<and> \<bar>px - real_of_int rad\<bar> < 0.5)
      \<or> (w_right mst \<and> \<bar>px - real_of_int wd + real_of_int rad\<bar> < 0.5))"

definition near_end_wall :: "int \<Rightarrow> State \<Rightarrow> int \<Rightarrow> real \<Rightarrow> bool" where
  "near_end_wall ht mst rad py =
     ((w_bottom mst \<and> \<bar>py - real_of_int rad\<bar> < 0.5)
      \<or> (w_top mst \<and> \<bar>py - real_of_int ht + real_of_int rad\<bar> < 0.5))"

definition wall_stick :: "int \<Rightarrow> int \<Rightarrow> State \<Rightarrow> real \<Rightarrow> Mass \<Rightarrow> Mass option" where
  "wall_stick wd ht mst stick_mag m =
     (let rad = screenRadius (radius m) in
      if old_vx m = 0 \<and> old_vy m = 0 then
        (if near_side_wall wd mst rad (old_x m)
         then (if \<bar>vx m\<bar> < stick_mag / mass m then Some (pinned m) else None)
         else if near_end_wall ht mst rad (old_y m)
         then (if \<bar>vy m\<bar> < stick_mag / mass m then Some (pinned m) else None)
         else None)
      else None)"

text \<open>Lines 603-634: bounce off the left or the right wall.\<close>

definition bounce_x :: "int \<Rightarrow> State \<Rightarrow> Mass \<Rightarrow> Mass" where
  "bounce_x wd mst m =
     (let rad = screenRadius (radius m) in
      if w_left mst \<and> x m < real_of_int rad \<and> old_x m \<ge> real_of_int rad then
        (let a = m\<lparr>x := real_of_int rad\<rparr> in
         if vx a < 0 then
           (let b = a\<lparr>vx := - vx a * elastic a\<rparr>; c = b\<lparr>vy := vy b * elastic b\<rparr> in
            if vx c > 0 then
              (let d = c\<lparr>vx := vx c - STICK_MAG * cur_stick mst / mass c\<rparr> in
               if vx d < 0 then d\<lparr>vy := 0, vx := 0\<rparr> else d)
            else c)
         else a)
      else if w_right mst \<and> x m > real_of_int (wd - rad) \<and> old_x m \<le> real_of_int (wd - rad) then
        (let a = m\<lparr>x := real_of_int (wd - rad)\<rparr> in
         if vx a > 0 then
           (let b = a\<lparr>vx := - vx a * elastic a\<rparr>; c = b\<lparr>vy := vy b * elastic b\<rparr> in
            if vx c < 0 then
              (let d = c\<lparr>vx := vx c + STICK_MAG * cur_stick mst / mass c\<rparr> in
               if vx d > 0 then d\<lparr>vy := 0, vx := 0\<rparr> else d)
            else c)
         else a)
      else m)"

text \<open>Lines 635-666: bounce off the bottom or the top wall.\<close>

definition bounce_y :: "int \<Rightarrow> State \<Rightarrow> Mass \<Rightarrow> Mass" where
  "bounce_y ht mst m =
     (let rad = screenRadius (radius m) in
      if w_bottom mst \<and> y m < real_of_int rad \<and> old_y m \<ge> real_of_int rad then
        (let a = m\<lparr>y := real_of_int rad\<rparr> in
         if vy a < 0 then
           (let b = a\<lparr>vy := - vy a * elastic a\<rparr>; c = b\<lparr>vx := vx b * elastic b\<rparr> in
            if vy c > 0 then
              (let d = c\<lparr>vy := vy c - STICK_MAG * cur_stick mst / mass c\<rparr> in
               if vy d < 0 then d\<lparr>vy := 0, vx := 0\<rparr> else d)
            else c)
         else a)
      else if w_top mst \<and> y m > real_of_int (ht - rad) \<and> old_y m \<le> real_of_int (ht - rad) then
        (let a = m\<lparr>y := real_of_int (ht - rad)\<rparr> in
         if vy a > 0 then
           (let b = a\<lparr>vy := - vy a * elastic a\<rparr>; c = b\<lparr>vx := vx b * elastic b\<rparr> in
            if vy c < 0 then
              (let d = c\<lparr>vy := vy c + STICK_MAG * cur_stick mst / mass c\<rparr> in
               if vy d > 0 then d\<lparr>vy := 0, vx := 0\<rparr> else d)
            else c)
         else a)
      else m)"

text \<open>
  Lines 566-668, the body of the wall loop for the mass \<open>i\<close>. The test for an
  "exploded" mass compares \<^verbatim>\<open>m.ax - m.ax\<close> and the like with zero; it is written as
  in the source, and is never true of a real number.
\<close>

definition wall_code :: "int \<Rightarrow> int \<Rightarrow> real \<Rightarrow> nat \<Rightarrow> System \<Rightarrow> System option" where
  "wall_code wd ht stick_mag i sys =
     (let m = masses sys ! i; mst = state sys in
      if free m then
        (if ax m - ax m \<noteq> 0 \<or> ay m - ay m \<noteq> 0 \<or> x m - x m \<noteq> 0 \<or> y m - y m \<noteq> 0
         then deleteMass (int i) sys
         else
           (case wall_stick wd ht mst stick_mag m of
              Some m' \<Rightarrow> Some (putMass (int i) m' sys)
            | None \<Rightarrow> Some (putMass (int i) (bounce_y ht mst (bounce_x wd mst m)) sys)))
      else Some sys)"

text \<open>
  A loop over the indices \<open>is\<close>, in order, whose body may fail. The number of masses
  does not change while the wall loop runs, so it visits \<open>[0..<massCount]\<close>.
\<close>

fun for_index :: "(nat \<Rightarrow> System \<Rightarrow> System option) \<Rightarrow> nat list \<Rightarrow> System \<Rightarrow> System option" where
  "for_index f [] sys = Some sys"
| "for_index f (i # is) sys = do { sys1 \<leftarrow> f i sys; for_index f is sys1 }"

definition wall_loop :: "int \<Rightarrow> int \<Rightarrow> real \<Rightarrow> System \<Rightarrow> System option" where
  "wall_loop wd ht stick_mag sys =
     for_index (wall_code wd ht stick_mag) [0..<length (masses sys)] sys"

text \<open>
  Lines 710-721 and 724-735: the new velocity of one of the two colliding masses. The two
  blocks of the source are the same text with the roles of \<^verbatim>\<open>m1\<close> and \<^verbatim>\<open>m2\<close>
  exchanged: \<open>m\<close> is the mass that is updated, \<open>other\<close> its partner, \<open>esum\<close> the
  sum \<^verbatim>\<open>m1.elastic + m2.elastic\<close>, \<open>(mvx, mvy)\<close> and \<open>(ovx, ovy)\<close> the velocities
  of the two masses read before the first update. A fixed mass is not updated.
\<close>

definition impact ::
  "Mass \<Rightarrow> Mass \<Rightarrow> real \<Rightarrow> real \<Rightarrow> real \<Rightarrow> real \<Rightarrow> real \<Rightarrow> real \<Rightarrow> real \<Rightarrow> real \<Rightarrow> real \<Rightarrow> real
     \<Rightarrow> Mass" where
  "impact m other esum mvx mvy ovx ovy dx dy dxq dyq sumxyq =
     (if \<not> (status m AND S_FIXED \<noteq> 0) then
        (let ratio = (if status other AND S_FIXED \<noteq> 0 then 1 + esum / 2
                      else (1 + esum / 2) / (1 + mass m / mass other));
             a = m\<lparr>vx := (mvx - (mvx - ovx) * ratio) * (dxq / sumxyq)
                        + mvx * (dyq / sumxyq)
                        - (mvy - ovy) * ratio * (dx * dy / sumxyq)\<rparr>
         in a\<lparr>vy := (vx a - mvx) * (dy / dx) + mvy\<rparr>)
      else m)"

text \<open>
  Lines 688-739, the body of the inner collision loop for the pair \<open>(i, j)\<close>;
  \<open>m1radius\<close>, \<open>m1x\<close> and \<open>m1y\<close> were read from the mass \<open>i\<close> before the inner
  loop started. \<^verbatim>\<open>dxq\<close> and \<^verbatim>\<open>sumxyq\<close> are computed before a zero \<^verbatim>\<open>dx\<close> is
  replaced by \<^verbatim>\<open>1e-10\<close>.
\<close>

definition collide_pair :: "real \<Rightarrow> real \<Rightarrow> real \<Rightarrow> nat \<Rightarrow> nat \<Rightarrow> Mass list \<Rightarrow> Mass list" where
  "collide_pair m1radius m1x m1y i j ms =
     (let ma = ms ! i; mb = ms ! j in
      if status mb AND S_ALIVE \<noteq> 0 then
        (let m2radius = (if status mb AND S_FIXED \<noteq> 0 then real_of_int NAIL_SIZE
                         else real_of_int (radius mb));
             dx0 = x mb - m1x; dy = y mb - m1y;
             dxq = dx0 * dx0; dyq = dy * dy; sumxyq = dxq + dyq; mag = sqrt sumxyq
         in if mag < m1radius + m2radius then
              (let m1vx = vx ma; m1vy = vy ma; m2vx = vx mb; m2vy = vy mb in
               if (m1vx - m2vx) * dx0 > 0 \<or> (m1vy - m2vy) * dy > 0 then
                 (let dx = (if dx0 = 0 then 1 / 10 ^ 10 else dx0);
                      esum = elastic ma + elastic mb;
                      ma1 = impact ma mb esum m1vx m1vy m2vx m2vy dx dy dxq dyq sumxyq;
                      mb1 = impact mb ma1 esum m2vx m2vy m1vx m1vy dx dy dxq dyq sumxyq
                  in (ms[i := ma1])[j := mb1])
               else ms)
            else ms)
      else ms)"

text \<open>Lines 674-741: the outer collision loop, for the mass \<open>i\<close>.\<close>

definition collide_from :: "nat \<Rightarrow> Mass list \<Rightarrow> Mass list" where
  "collide_from i ms =
     (let ma = ms ! i in
      if status ma AND S_ALIVE \<noteq> 0 then
        (let m1radius = (if status ma AND S_FIXED \<noteq> 0 then real_of_int NAIL_SIZE
                         else real_of_int (radius ma));
             m1x = x ma; m1y = y ma
         in fold (collide_pair m1radius m1x m1y i) [Suc i..<length ms] ms)
      else ms)"

definition collide_all :: "System \<Rightarrow> System" where
  "collide_all sys =
     (if collide (state sys)
      then sys\<lparr>masses := fold collide_from [0..<length (masses sys)] (masses sys)\<rparr>
      else sys)"

text \<open>
  Lines 531-742: everything \<^verbatim>\<open>advance\<close> does to the system before the pacer; the
  stick threshold is computed from \<^verbatim>\<open>cur_dt\<close> as the integrator left it.
\<close>

definition advance_system :: "int \<Rightarrow> int \<Rightarrow> System \<Rightarrow> System option" where
  "advance_system wd ht sys =
     do {
       sys1 \<leftarrow> integrate wd ht (on_free save_old sys);
       sys2 \<leftarrow> wall_loop wd ht (STICK_MAG * cur_dt (state sys1) * cur_stick (state sys1)) sys1;
       Some (collide_all sys2)
     }"

text \<open>
  \<^verbatim>\<open>Physics::advance\<close>: the step, and then the pacer on \<^verbatim>\<open>cur_dt\<close> in the
  arithmetic \<open>fp\<close>. The result is the returned flag, the new \<^verbatim>\<open>Physics\<close> and the
  new statics.
\<close>

definition advance :: "Arith \<Rightarrow> Physics \<Rightarrow> Statics \<Rightarrow> (bool \<times> Physics \<times> Statics) option" where
  "advance fp p st =
     do {
       sys' \<leftarrow> advance_system (width p) (height p) (system p);
       (let (r, st') = frame_pacer fp (cur_dt (state sys')) st
        in Some (r, p\<lparr>system := sys'\<rparr>, st'))
     }"

subsection \<open>What a step leaves alone\<close>

text \<open>
  \<open>kept m m'\<close>: the mass \<open>m'\<close> has the status, mass, elasticity, radius, parent list
  and saved values \<^verbatim>\<open>old_*\<close> of \<open>m\<close>, and also its position and velocity unless
  \<open>m\<close> is free.
\<close>

definition kept :: "Mass \<Rightarrow> Mass \<Rightarrow> bool" where
  "kept m m' =
     (status m' = status m \<and> mass m' = mass m \<and> elastic m' = elastic m
      \<and> radius m' = radius m \<and> parents m' = parents m
      \<and> old_x m' = old_x m \<and> old_y m' = old_y m
      \<and> old_vx m' = old_vx m \<and> old_vy m' = old_vy m
      \<and> (\<not> free m \<longrightarrow> x m' = x m \<and> y m' = y m \<and> vx m' = vx m \<and> vy m' = vy m))"

text \<open>A mass with its acceleration blanked.\<close>

definition no_accel :: "Mass \<Rightarrow> Mass" where
  "no_accel m = m\<lparr>ax := 0, ay := 0\<rparr>"

text \<open>
  \<open>step_rel sys sys'\<close>: the masses are kept, the springs and the fake entities are the
  same, and the parameters differ at most in \<^verbatim>\<open>center_id\<close> and \<^verbatim>\<open>cur_dt\<close>.
\<close>

definition step_rel :: "System \<Rightarrow> System \<Rightarrow> bool" where
  "step_rel sys sys' =
     (list_all2 kept (masses sys) (masses sys') \<and> springs sys' = springs sys
      \<and> fakeMass sys' = fakeMass sys \<and> fakeSpring sys' = fakeSpring sys
      \<and> (state sys')\<lparr>center_id := 0, cur_dt := 0\<rparr> = (state sys)\<lparr>center_id := 0, cur_dt := 0\<rparr>)"

text \<open>
  Two free masses of mass 1 at rest, 100 apart, joined by a spring at its rest length;
  adaptive stepping with a precision of \<open>10^-6\<close>.
\<close>

definition ex_pair :: System where
  "ex_pair =
     \<lparr>state = State_reset\<lparr>adaptive_step := True, cur_prec := 1 / 1000000\<rparr>,
      masses = [(new_Mass zero_Mass)\<lparr>x := 100, y := 100, mass := 1, parents := [0]\<rparr>,
                (new_Mass zero_Mass)\<lparr>x := 200, y := 100, mass := 1, parents := [0]\<rparr>],
      springs = [new_Spring\<lparr>ks := 1, kd := 1, restlen := 100, m1 := 0, m2 := 1\<rparr>],
      fakeMass = 0, fakeSpring = 0\<rparr>"

text \<open>
  Two masses joined by two selected springs with the same stiffness and different
  damping (7 and 2); the parameters hold the defaults \<open>cur_ks = 1\<close>, \<open>cur_kd = 1\<close>.
\<close>

definition ex_selected_springs :: System where
  "ex_selected_springs =
     \<lparr>state = State_reset,
      masses = [(new_Mass zero_Mass)\<lparr>x := 100, y := 100, mass := 1, parents := [0, 1]\<rparr>,
                (new_Mass zero_Mass)\<lparr>x := 200, y := 100, mass := 1, parents := [0, 1]\<rparr>],
      springs = [new_Spring\<lparr>status := 3, ks := 1, kd := 7, restlen := 100, m1 := 0, m2 := 1\<rparr>,
                 new_Spring\<lparr>status := 3, ks := 1, kd := 2, restlen := 100, m1 := 0, m2 := 1\<rparr>],
      fakeMass = 0, fakeSpring = 0\<rparr>"

text \<open>
  Two selected masses, both alive and fixed (status 7), with the default mass and
  elasticity; the parameters hold the default \<open>fix_mass = False\<close>.
\<close>

definition ex_selected_fixed :: System where
  "ex_selected_fixed =
     \<lparr>state = State_reset,
      masses = [(new_Mass zero_Mass)\<lparr>status := 7, x := 100, y := 100, mass := 1, elastic := 1\<rparr>,
                (new_Mass zero_Mass)\<lparr>status := 7, x := 200, y := 100, mass := 1, elastic := 1\<rparr>],
      springs = [],
      fakeMass = 0, fakeSpring = 0\<rparr>"

text \<open>
  What the wall loop does to one mass: a free mass is pinned, or else goes through the
  two bounce tests; any other mass is left alone.
\<close>

definition wall_mass :: "int \<Rightarrow> int \<Rightarrow> State \<Rightarrow> real \<Rightarrow> Mass \<Rightarrow> Mass" where
  "wall_mass wd ht mst stick_mag m =
     (if free m then
        (case wall_stick wd ht mst stick_mag m of
           Some m' \<Rightarrow> m'
         | None \<Rightarrow> bounce_y ht mst (bounce_x wd mst m))
      else m)"

text \<open>
  \<open>anchored m m'\<close>: the mass \<open>m'\<close> has the status of \<open>m\<close>, and also its position and
  velocity when \<open>m\<close> is fixed.
\<close>

definition anchored :: "Mass \<Rightarrow> Mass \<Rightarrow> bool" where
  "anchored m m' =
     (status m' = status m
      \<and> (status m AND S_FIXED \<noteq> 0 \<longrightarrow>
           x m' = x m \<and> y m' = y m \<and> vx m' = vx m \<and> vy m' = vy m))"

text \<open>
  A fixed mass with a velocity of its own and a free mass moving to the right, in a
  window of 400 by 300; no force is enabled.
\<close>

definition ex_anchor :: Physics where
  "ex_anchor =
     \<lparr>system =
        \<lparr>state = State_reset,
         masses = [(new_Mass zero_Mass)\<lparr>status := 5, x := 100, y := 100, vx := 3, vy := 4,
                                         mass := 1, elastic := 1\<rparr>,
                   (new_Mass zero_Mass)\<lparr>x := 200, y := 100, vx := 10, mass := 1, elastic := 1\<rparr>],
         springs = [],
         fakeMass = 0, fakeSpring = 0\<rparr>,
      width = 400, height = 300\<rparr>"


text \<open>The free masses other than the centre mass.\<close>

definition cmass_members :: "State \<Rightarrow> Mass list \<Rightarrow> Mass list" where
  "cmass_members mst ms =
     map snd (filter (\<lambda>(i, m). int i \<noteq> center_id mst \<and> free m) (enumerate 0 ms))"

text \<open>
  The centre-of-mass acceleration as the specification words it: the pull towards the
  mass-weighted centre of the free masses other than the centre mass, with the
  magnitude term and the damping term divided by the moving mass's own mass.
\<close>

definition cmass_accel_spec :: "State \<Rightarrow> real \<Rightarrow> real \<Rightarrow> Mass list \<Rightarrow> Mass \<Rightarrow> real \<times> real" where
  "cmass_accel_spec mst center_x center_y ms m =
     (let M = cmass_members mst ms; msum = sum_list (map mass M);
          gval = cur_grav_val mst FR_CMASS; gmisc = cur_misc_val mst FR_CMASS;
          mixix = sum_list (map (\<lambda>m. mass m * x m) M) / msum - center_x;
          mixiy = sum_list (map (\<lambda>m. mass m * y m) M) / msum - center_y;
          mivix = sum_list (map (\<lambda>m. mass m * vx m) M) / msum;
          miviy = sum_list (map (\<lambda>m. mass m * vy m) M) / msum
      in (- ((gval * mixix + gmisc * mivix) / mass m),
          - ((gval * mixiy + gmisc * miviy) / mass m)))"

text \<open>
  Two free masses at rest, of mass 1 at \<open>(100, 150)\<close> and of mass 3 at \<open>(300, 150)\<close>,
  in a window of 400 by 300 with the centre-of-mass force enabled (magnitude 5,
  damping 2) and no centre mass.
\<close>

definition ex_cmass :: System where
  "ex_cmass =
     \<lparr>state = State_reset\<lparr>force_enabled := (\<lambda>i. i = FR_CMASS)\<rparr>,
      masses = [(new_Mass zero_Mass)\<lparr>x := 100, y := 150, mass := 1\<rparr>,
                (new_Mass zero_Mass)\<lparr>x := 300, y := 150, mass := 3\<rparr>],
      springs = [],
      fakeMass = 0, fakeSpring = 0\<rparr>"

text \<open>
  A free mass at rest in the bottom left corner of a window of 400 by 300 (its screen
  radius is 15) and a fixed mass to its right at the same height, which is the centre
  mass; the centre-of-mass force (magnitude 5, damping 2) is the only force and pulls
  the free mass along \<open>+x\<close>, towards the centre mass; the stickiness is 1.
\<close>

definition ex_corner :: Physics where
  "ex_corner =
     \<lparr>system =
        \<lparr>state = State_reset
           \<lparr>force_enabled := (\<lambda>i. i = FR_CMASS), center_id := 1, cur_stick := 1\<rparr>,
         masses = [(new_Mass zero_Mass)\<lparr>x := 15, y := 15, mass := 1, elastic := 1\<rparr>,
                   (new_Mass zero_Mass)\<lparr>status := 5, x := 215, y := 15, mass := 1,
                                         elastic := 1\<rparr>],
         springs = [],
         fakeMass = 0, fakeSpring = 0\<rparr>,
      width = 400, height = 300\<rparr>"

text \<open>
  A free mass at rest on the bottom wall, away from the side walls, with gravity of 10
  pulling it down and stickiness 20.
\<close>

definition ex_floor :: Physics where
  "ex_floor =
     \<lparr>system =
        \<lparr>state = State_reset\<lparr>force_enabled := (\<lambda>i. i = FR_GRAV), cur_stick := 20\<rparr>,
         masses = [(new_Mass zero_Mass)\<lparr>x := 200, y := 15, mass := 1, elastic := 1\<rparr>],
         springs = [],
         fakeMass = 0, fakeSpring = 0\<rparr>,
      width = 400, height = 300\<rparr>"

text \<open>The same mass on the bottom wall, with stickiness 0.\<close>

definition ex_slippery :: Physics where
  "ex_slippery =
     ex_floor\<lparr>system := (system ex_floor)\<lparr>state := (state (system ex_floor))\<lparr>cur_stick := 0\<rparr>\<rparr>\<rparr>"

subsection \<open>Duplicating the selection (\<^verbatim>\<open>System::duplicateSelected\<close>)\<close>

text \<open>
  Lines 385-390 of \<^verbatim>\<open>duplicateSelected\<close>: a new mass is created, the mass \<open>i\<close> is
  copied into it, and the copy loses its selection and its parent list. The result is
  the index of the new mass and the new system.
\<close>

definition dup_mass :: "Mass \<Rightarrow> nat \<Rightarrow> System \<Rightarrow> int \<times> System" where
  "dup_mass junk i sys =
     (let (which, sys1) = createMass junk sys;
          sys2 = putMass which (masses sys1 ! i) sys1;
          sys3 = putMass which (setSelected False (masses sys2 ! nat which)) sys2;
          sys4 = putMass which ((masses sys3 ! nat which)\<lparr>parents := []\<rparr>) sys3
      in (which, sys4))"

text \<open>The copy of a mass that \<open>dup_mass\<close> appends.\<close>

definition mass_copy :: "Mass \<Rightarrow> Mass" where
  "mass_copy m = (setSelected False m)\<lparr>parents := []\<rparr>"

lemma dup_mass_eq:
  "i < length (masses sys) \<Longrightarrow>
   dup_mass junk i sys = (massCount sys, sys\<lparr>masses := masses sys @ [mass_copy (masses sys ! i)]\<rparr>)"
  by (simp add: dup_mass_def createMass_def putMass_def massCount_def Let_def mass_copy_def
      nth_append)

lemma and_not_and: "(a AND NOT b) AND b = 0" for a b :: int
  by (simp add: and.assoc)

lemma not_selected_copy: "\<not> isSelected (setSelected False e)"
  by (simp add: isSelected_def setSelected_def and_not_and)

lemma not_selected_mass_copy: "\<not> isSelected (mass_copy m)"
  using not_selected_copy [of m] by (simp add: mass_copy_def isSelected_def setSelected_def)

function dup_masses ::
  "Mass \<Rightarrow> nat \<Rightarrow> System \<Rightarrow> int list \<Rightarrow> int list \<Rightarrow> System \<times> int list \<times> int list" where
  "dup_masses junk i sys mapfrom mapto =
     (if int i < massCount sys then
        (if isSelected (masses sys ! i)
         then dup_masses junk (Suc i) (snd (dup_mass junk i sys))
                (mapfrom @ [int i]) (mapto @ [fst (dup_mass junk i sys)])
         else dup_masses junk (Suc i) sys mapfrom mapto)
      else (sys, mapfrom, mapto))"
  by pat_completeness auto
termination
proof (relation "measure (\<lambda>(junk, i, sys, mapfrom, mapto).
         2 * length (filter isSelected (drop i (masses sys))) + (length (masses sys) - i))")
  show "wf (measure (\<lambda>(junk, i, sys, mapfrom, mapto).
         2 * length (filter isSelected (drop i (masses sys))) + (length (masses sys) - i)))"
    by simp
next
  fix junk :: Mass and i sys and mapfrom mapto :: "int list"
  assume a: "int i < massCount sys" and s: "isSelected (masses sys ! i)"
  hence i: "i < length (masses sys)" by (simp add: massCount_def)
  have "drop i (masses sys) = masses sys ! i # drop (Suc i) (masses sys)"
    using i by (simp add: Cons_nth_drop_Suc)
  hence "length (filter isSelected (drop i (masses sys)))
      = Suc (length (filter isSelected (drop (Suc i) (masses sys))))"
    using s by simp
  thus "((junk, Suc i, snd (dup_mass junk i sys), mapfrom @ [int i],
          mapto @ [fst (dup_mass junk i sys)]), junk, i, sys, mapfrom, mapto)
        \<in> measure (\<lambda>(junk, i, sys, mapfrom, mapto).
         2 * length (filter isSelected (drop i (masses sys))) + (length (masses sys) - i))"
    using i by (simp add: dup_mass_eq not_selected_mass_copy)
next
  fix junk :: Mass and i sys and mapfrom mapto :: "int list"
  assume a: "int i < massCount sys" and s: "\<not> isSelected (masses sys ! i)"
  hence i: "i < length (masses sys)" by (simp add: massCount_def)
  have "drop i (masses sys) = masses sys ! i # drop (Suc i) (masses sys)"
    using i by (simp add: Cons_nth_drop_Suc)
  hence "length (filter isSelected (drop i (masses sys)))
      = length (filter isSelected (drop (Suc i) (masses sys)))"
    using s by simp
  thus "((junk, Suc i, sys, mapfrom, mapto), junk, i, sys, mapfrom, mapto)
        \<in> measure (\<lambda>(junk, i, sys, mapfrom, mapto).
         2 * length (filter isSelected (drop i (masses sys))) + (length (masses sys) - i))"
    using i by simp
qed

declare dup_masses.simps [simp del]

text \<open>
  Lines 403-414, the inner loop of the spring pass, over the pairs
  \<open>(mapfrom[j], mapto[j])\<close> in order: an endpoint of the new spring \<open>which\<close> that
  equals \<open>mapfrom[j]\<close> becomes \<open>mapto[j]\<close>, and the new mass gets the new spring as
  a parent. The loop stops early once both endpoints are done. The result carries the
  two flags \<^verbatim>\<open>m1done\<close> and \<^verbatim>\<open>m2done\<close>.
\<close>

fun remap :: "int \<Rightarrow> (int \<times> int) list \<Rightarrow> bool \<Rightarrow> bool \<Rightarrow> System
    \<Rightarrow> (System \<times> bool \<times> bool) option" where
  "remap which [] m1done m2done sys = Some (sys, m1done, m2done)"
| "remap which ((mf, mt) # rest) m1done m2done sys =
     (if \<not> m1done \<or> \<not> m2done then
        do {
          (sys1, d1) \<leftarrow>
            (if \<not> m1done \<and> m1 (springs sys ! nat which) = mf
             then do {
               t \<leftarrow> addMassParent mt which
                     (putSpring which ((springs sys ! nat which)\<lparr>m1 := mt\<rparr>) sys);
               Some (t, True)
             }
             else Some (sys, m1done));
          (sys2, d2) \<leftarrow>
            (if \<not> m2done \<and> m2 (springs sys1 ! nat which) = mf
             then do {
               t \<leftarrow> addMassParent mt which
                     (putSpring which ((springs sys1 ! nat which)\<lparr>m2 := mt\<rparr>) sys1);
               Some (t, True)
             }
             else Some (sys1, m2done));
          remap which rest d1 d2 sys2
        }
      else Some (sys, m1done, m2done))"

text \<open>
  Lines 396-419, the body of the spring pass for the spring \<open>i\<close>: a selected spring
  is copied into a new spring, the copy loses its selection, its endpoints are remapped,
  and it is deleted when neither endpoint was remapped.
\<close>

definition dup_spring :: "int list \<Rightarrow> int list \<Rightarrow> nat \<Rightarrow> System \<Rightarrow> System option" where
  "dup_spring mapfrom mapto i sys =
     (if isSelected (springs sys ! i) then
        (let (which, sys1) = createSpring sys;
             sys2 = putSpring which (springs sys1 ! i) sys1;
             sys3 = putSpring which (setSelected False (springs sys2 ! nat which)) sys2
         in do {
              (sys4, m1done, m2done) \<leftarrow> remap which (zip mapfrom mapto) False False sys3;
              if \<not> m1done \<and> \<not> m2done then deleteSpring which sys4 else Some sys4
            })
      else Some sys)"

text \<open>
  \<^verbatim>\<open>duplicateSelected\<close>. The mass pass runs while \<open>i < massCount()\<close>, and the
  count grows with every copy; the spring pass runs up to the number of springs there
  were at the start.
\<close>

definition duplicateSelected :: "Mass \<Rightarrow> System \<Rightarrow> System option" where
  "duplicateSelected junk sys =
     (let spring_start = springCount sys;
          (sys1, mapfrom, mapto) = dup_masses junk 0 sys [] []
      in for_index (dup_spring mapfrom mapto) [0..<nat spring_start] sys1)"

text \<open>
  What the spring pass leaves of a selected spring \<open>s\<close>, for the association \<open>zs\<close> of
  the pairs \<open>(mapfrom[j], mapto[j])\<close>: an endpoint that is some \<open>mapfrom[j]\<close> becomes
  the first such \<open>mapto[j]\<close>, the selection is cleared, and the copy is dead when neither
  endpoint was remapped.
\<close>

definition remapped :: "(int \<times> int) list \<Rightarrow> int \<Rightarrow> int" where
  "remapped zs e = (case map_of zs e of None \<Rightarrow> e | Some t \<Rightarrow> t)"

definition spring_copy :: "(int \<times> int) list \<Rightarrow> Spring \<Rightarrow> Spring" where
  "spring_copy zs s =
     (let c = (setSelected False s)\<lparr>m1 := remapped zs (m1 s), m2 := remapped zs (m2 s)\<rparr>
      in if m1 s \<notin> fst ` set zs \<and> m2 s \<notin> fst ` set zs \<and> isAlive c
         then c\<lparr>status := 0\<rparr> else c)"

text \<open>
  The association that the mass pass builds: \<^verbatim>\<open>mapfrom\<close> holds the indices of the
  selected masses, in increasing order, and \<^verbatim>\<open>mapto\<close> the indices of their copies,
  which are appended in the same order.
\<close>

definition selected_masses :: "System \<Rightarrow> nat list" where
  "selected_masses sys = [j\<leftarrow>[0..<length (masses sys)]. isSelected (masses sys ! j)]"

definition dup_map :: "System \<Rightarrow> (int \<times> int) list" where
  "dup_map sys =
     zip (map int (selected_masses sys))
         (map int [length (masses sys)..<length (masses sys) + length (selected_masses sys)])"

text \<open>
  Three masses and two springs: spring 0 joins masses 0 and 1, spring 1 joins masses 0
  and 2. Masses 0 and 2 and spring 1 are selected (status 3 is ALIVE and SELECTED).
\<close>

definition ex_dup_pair :: System where
  "ex_dup_pair =
     \<lparr>state = State_reset,
      masses = [(new_Mass zero_Mass)\<lparr>status := 3, x := 10, mass := 1, parents := [0, 1]\<rparr>,
                (new_Mass zero_Mass)\<lparr>x := 20, mass := 2, parents := [0]\<rparr>,
                (new_Mass zero_Mass)\<lparr>status := 3, x := 30, mass := 3, parents := [1]\<rparr>],
      springs = [new_Spring\<lparr>ks := 1, kd := 1, restlen := 10, m1 := 0, m2 := 1\<rparr>,
                 new_Spring\<lparr>status := 3, ks := 2, kd := 3, restlen := 5, m1 := 2, m2 := 0\<rparr>],
      fakeMass = 0, fakeSpring = 0\<rparr>"

text \<open>
  Three masses and one selected spring that joins masses 0 and 1; only mass 2 is
  selected.
\<close>

definition ex_dup_loose :: System where
  "ex_dup_loose =
     \<lparr>state = State_reset,
      masses = [(new_Mass zero_Mass)\<lparr>x := 10, mass := 1, parents := [0]\<rparr>,
                (new_Mass zero_Mass)\<lparr>x := 20, mass := 2, parents := [0]\<rparr>,
                (new_Mass zero_Mass)\<lparr>status := 3, x := 30, mass := 3\<rparr>],
      springs = [new_Spring\<lparr>status := 3, ks := 2, kd := 3, restlen := 5, m1 := 0, m2 := 1\<rparr>],
      fakeMass = 0, fakeSpring = 0\<rparr>"

section \<open>Theorems\<close>

subsection \<open>Frame pacing\<close>

lemma frame_pacer_result:
  "fst (frame_pacer fp dt st) =
     (dadd fp (time_elapsed st) dt > dlit fp 0.05 \<or> num_since st \<ge> 8)"
  by (simp add: frame_pacer_def Let_def)

lemma frame_pacer_time:
  "time_elapsed (snd (frame_pacer fp dt st)) =
     (if dadd fp (time_elapsed st) dt > dlit fp 0.05
      then dsub fp (dadd fp (time_elapsed st) dt) (dlit fp 0.05)
      else dadd fp (time_elapsed st) dt)"
  by (simp add: frame_pacer_def Let_def)

lemma frame_pacer_num:
  "num_since (snd (frame_pacer fp dt st)) =
     (if fst (frame_pacer fp dt st) then 0 else num_since st + 1)"
  by (simp add: frame_pacer_def Let_def)

lemma pacer_run_snoc:
  "pacer_run fp (dts @ [dt]) st =
     (let (rs, st1) = pacer_run fp dts st; (r, st2) = frame_pacer fp dt st1
      in (rs @ [r], st2))"
  by (induction dts arbitrary: st) (simp_all add: Let_def split: prod.splits)

lemma pacer_run_num_since:
  "num_since (snd (pacer_run fp dts statics0))
     = int (trailing_false (fst (pacer_run fp dts statics0)))
   \<and> num_since (snd (pacer_run fp dts statics0)) \<le> 8"
proof (induction dts rule: rev_induct)
  case Nil
  show ?case by (simp add: statics0_def trailing_false_def)
next
  case (snoc dt dts)
  obtain rs st1 where run: "pacer_run fp dts statics0 = (rs, st1)"
    by (cases "pacer_run fp dts statics0")
  obtain r st2 where step: "frame_pacer fp dt st1 = (r, st2)"
    by (cases "frame_pacer fp dt st1")
  from snoc run have inv: "num_since st1 = int (trailing_false rs)" "num_since st1 \<le> 8"
    by simp_all
  have r: "r = (dadd fp (time_elapsed st1) dt > dlit fp 0.05 \<or> num_since st1 \<ge> 8)"
    using frame_pacer_result [of fp dt st1] step by simp
  have n: "num_since st2 = (if r then 0 else num_since st1 + 1)"
    using frame_pacer_num [of fp dt st1] step by simp
  have all: "pacer_run fp (dts @ [dt]) statics0 = (rs @ [r], st2)"
    by (simp add: pacer_run_snoc run step)
  show ?case
  proof (cases r)
    case True
    with n all show ?thesis by (simp add: trailing_false_def)
  next
    case False
    with r inv have "num_since st1 < 8" by simp
    with False n all inv show ?thesis by (simp add: trailing_false_def)
  qed
qed

text \<open>
  Claim C7, as amended. Whatever the arithmetic of doubles is, after any sequence of
  calls that started from the initial statics the next call of the pacer returns true
  exactly when the accumulated time (the carried accumulator plus this call's
  \<open>cur_dt\<close>, as a double) exceeds the double 0.05 or the 8 calls before it all returned
  false. When the time exceeds 0.05 the accumulator is not zeroed: 0.05 is subtracted
  and the excess is carried over; in every other case the accumulator keeps the sum.
  The number of calls since the last true never exceeds 8.
\<close>

theorem C7_frame_pacer:
  "fst (frame_pacer fp dt (snd (pacer_run fp dts statics0))) =
     (dadd fp (time_elapsed (snd (pacer_run fp dts statics0))) dt > dlit fp 0.05
      \<or> trailing_false (fst (pacer_run fp dts statics0)) \<ge> 8)
   \<and> time_elapsed (snd (frame_pacer fp dt (snd (pacer_run fp dts statics0)))) =
     (if dadd fp (time_elapsed (snd (pacer_run fp dts statics0))) dt > dlit fp 0.05
      then dsub fp (dadd fp (time_elapsed (snd (pacer_run fp dts statics0))) dt)
             (dlit fp 0.05)
      else dadd fp (time_elapsed (snd (pacer_run fp dts statics0))) dt)
   \<and> trailing_false (fst (pacer_run fp dts statics0)) \<le> 8"
  using pacer_run_num_since [of fp dts]
  by (simp add: frame_pacer_result frame_pacer_time)

text \<open>Evaluating the binary64 arithmetic.\<close>

lemma bexp_numeral:
  "bexp (numeral k) v =
     (if 2 \<le> v then bexp (pred_numeral k) (v / 2) + 1
      else if v < 1 then bexp (pred_numeral k) (v * 2) - 1 else 0)"
  by (simp add: numeral_eq_Suc)

lemmas dbl_defs = dbl_def pow2_def rne_def bexp_numeral Let_def

lemma dbl_literals:
  "dbl 0.05 = 3602879701896397 / 2 ^ 56"
  "dbl 0.04 = 5764607523034235 / 2 ^ 57"
  "dbl 0.025 = 3602879701896397 / 2 ^ 57"
  by (simp_all add: dbl_defs)

text \<open>
  At the default step 0.025 the rounding shows: the second call accumulates the double
  0.05 exactly and is not due, the third is due and carries a little more than 0.025
  over, which makes the fourth call due as well.
\<close>

lemma frame_pacer_default_step:
  "fst (pacer_run ieee (replicate 4 (dlit ieee 0.025)) statics0) = [False, False, True, True]"
  by (simp add: numeral_eq_Suc frame_pacer_def statics0_def ieee_def dbl_literals)
    (simp add: dbl_defs)

text \<open>
  Claim C7 as stated fails: with \<open>cur_dt = 0.04\<close> the second call exceeds 0.05 and
  returns true; had the accumulator been reset, the third call (accumulated 0.04, no
  false call since the last true) would return false, but the carried 0.03 makes the
  code return true.
\<close>

theorem C7_counterexample:
  "fst (pacer_run ieee [dlit ieee 0.04, dlit ieee 0.04, dlit ieee 0.04] statics0)
     = [False, True, True]
   \<and> fst (pacer_run_spec ieee [dlit ieee 0.04, dlit ieee 0.04, dlit ieee 0.04] statics0)
     = [False, True, False]"
  by (simp add: frame_pacer_def frame_pacer_spec_def statics0_def ieee_def dbl_literals)
    (simp add: dbl_defs)

subsection \<open>Entity store: deletion\<close>

lemma nth_list_update_if:
  "xs[i := v] ! j = (if i = j \<and> i < length xs then v else xs ! j)"
  by (cases "i < length xs") (auto simp: list_update_beyond)

lemma getMass_Some:
  "getMass sys i = Some m \<longleftrightarrow> 0 \<le> i \<and> i < massCount sys \<and> m = masses sys ! nat i"
  by (auto simp: getMass_def)

lemma getSpring_Some:
  "getSpring sys i = Some s \<longleftrightarrow> 0 \<le> i \<and> i < springCount sys \<and> s = springs sys ! nat i"
  by (auto simp: getSpring_def)

lemma not_alive_status0 [simp]: "\<not> isAlive (e\<lparr>status := 0\<rparr>)"
  by (simp add: isAlive_def)

lemma deleteMassParent_frame:
  assumes "deleteMassParent w p sys = Some sys'"
  shows "springs sys' = springs sys" and "state sys' = state sys"
    and "fakeMass sys' = fakeMass sys" and "fakeSpring sys' = fakeSpring sys"
    and "map (parents_update (\<lambda>_. [])) (masses sys') = map (parents_update (\<lambda>_. [])) (masses sys)"
    and "length (masses sys') = length (masses sys)"
    and "j < length (masses sys) \<Longrightarrow> set (parents (masses sys' ! j)) \<subseteq> set (parents (masses sys ! j))"
  using assms
  by (auto simp: deleteMassParent_def getMass_Some putMass_def massCount_def map_update
        list_update_same_conv nth_list_update
      split: bind_splits if_splits dest: set_mp [OF set_remove1_subset])

lemma deleteMassParent_total:
  "0 \<le> w \<Longrightarrow> w < massCount sys \<Longrightarrow> \<exists>sys'. deleteMassParent w p sys = Some sys'"
  by (simp add: deleteMassParent_def getMass_def)

lemma deleteSpring_dead:
  "getSpring sys k = Some s \<Longrightarrow> \<not> isAlive s \<Longrightarrow> deleteSpring k sys = Some sys"
  by (simp add: deleteSpring_def)

lemma deleteSpring_frame:
  assumes "deleteSpring k sys = Some sys'"
  shows "state sys' = state sys"
    and "fakeMass sys' = fakeMass sys" and "fakeSpring sys' = fakeSpring sys"
    and "map (parents_update (\<lambda>_. [])) (masses sys') = map (parents_update (\<lambda>_. [])) (masses sys)"
    and "length (masses sys') = length (masses sys)"
    and "j < length (masses sys) \<Longrightarrow> set (parents (masses sys' ! j)) \<subseteq> set (parents (masses sys ! j))"
    and "springs sys' =
           (if isAlive (springs sys ! nat k) then (springs sys)[nat k := (springs sys ! nat k)\<lparr>status := 0\<rparr>]
            else springs sys)"
proof -
  from assms obtain s where s: "getSpring sys k = Some s"
    by (auto simp: deleteSpring_def split: bind_splits)
  hence sk: "s = springs sys ! nat k" by (simp add: getSpring_Some)
  have "state sys' = state sys \<and> fakeMass sys' = fakeMass sys \<and> fakeSpring sys' = fakeSpring sys
    \<and> map (parents_update (\<lambda>_. [])) (masses sys') = map (parents_update (\<lambda>_. [])) (masses sys)
    \<and> length (masses sys') = length (masses sys)
    \<and> (j < length (masses sys) \<longrightarrow> set (parents (masses sys' ! j)) \<subseteq> set (parents (masses sys ! j)))
    \<and> springs sys' =
           (if isAlive (springs sys ! nat k) then (springs sys)[nat k := (springs sys ! nat k)\<lparr>status := 0\<rparr>]
            else springs sys)"
  proof (cases "isAlive s")
    case False
    with assms s sk show ?thesis by (simp add: deleteSpring_def)
  next
    case True
    with assms s obtain sys1 where
      a: "deleteMassParent (m1 s) k (putSpring k (s\<lparr>status := 0\<rparr>) sys) = Some sys1"
      and b: "deleteMassParent (m2 s) k sys1 = Some sys'"
      by (auto simp: deleteSpring_def split: bind_splits)
    note fa = deleteMassParent_frame [OF a] and fb = deleteMassParent_frame [OF b]
    have len1: "length (masses sys1) = length (masses sys)"
      using fa(6) by (simp add: putSpring_def)
    have "j < length (masses sys) \<longrightarrow> set (parents (masses sys' ! j)) \<subseteq> set (parents (masses sys ! j))"
    proof
      assume j: "j < length (masses sys)"
      from fa(7) [of j] j have "set (parents (masses sys1 ! j)) \<subseteq> set (parents (masses sys ! j))"
        by (simp add: putSpring_def)
      moreover from fb(7) [of j] j len1 have "set (parents (masses sys' ! j)) \<subseteq> set (parents (masses sys1 ! j))"
        by simp
      ultimately show "set (parents (masses sys' ! j)) \<subseteq> set (parents (masses sys ! j))" by blast
    qed
    moreover have "state sys' = state sys" "fakeMass sys' = fakeMass sys" "fakeSpring sys' = fakeSpring sys"
      "map (parents_update (\<lambda>_. [])) (masses sys') = map (parents_update (\<lambda>_. [])) (masses sys)"
      "length (masses sys') = length (masses sys)"
      "springs sys' = (springs sys)[nat k := (springs sys ! nat k)\<lparr>status := 0\<rparr>]"
      using fa(1-6) fb(1-6) sk by (simp_all add: putSpring_def)
    ultimately show ?thesis using True sk by simp
  qed
  thus "state sys' = state sys" "fakeMass sys' = fakeMass sys" "fakeSpring sys' = fakeSpring sys"
    "map (parents_update (\<lambda>_. [])) (masses sys') = map (parents_update (\<lambda>_. [])) (masses sys)"
    "length (masses sys') = length (masses sys)"
    "j < length (masses sys) \<Longrightarrow> set (parents (masses sys' ! j)) \<subseteq> set (parents (masses sys ! j))"
    "springs sys' =
           (if isAlive (springs sys ! nat k) then (springs sys)[nat k := (springs sys ! nat k)\<lparr>status := 0\<rparr>]
            else springs sys)"
    by blast+
qed

lemma wf_links_deleteSpring_total:
  assumes "wf_links sys" "0 \<le> k" "k < springCount sys"
  shows "\<exists>sys'. deleteSpring k sys = Some sys'"
proof (cases "isAlive (springs sys ! nat k)")
  case False
  with assms show ?thesis by (simp add: deleteSpring_def getSpring_def)
next
  case True
  let ?s = "springs sys ! nat k"
  from assms have "?s \<in> set (springs sys)" by (simp add: springCount_def)
  with assms(1) True have r: "0 \<le> m1 ?s" "m1 ?s < massCount sys" "0 \<le> m2 ?s" "m2 ?s < massCount sys"
    by (auto simp: wf_links_def list_all_iff)
  let ?sys0 = "putSpring k (?s\<lparr>status := 0\<rparr>) sys"
  from r have "\<exists>sys1. deleteMassParent (m1 ?s) k ?sys0 = Some sys1"
    by (intro deleteMassParent_total) (simp_all add: putSpring_def massCount_def)
  then obtain sys1 where a: "deleteMassParent (m1 ?s) k ?sys0 = Some sys1" ..
  from deleteMassParent_frame(6) [OF a] r have "\<exists>sys2. deleteMassParent (m2 ?s) k sys1 = Some sys2"
    by (intro deleteMassParent_total) (simp_all add: putSpring_def massCount_def)
  then obtain sys2 where b: "deleteMassParent (m2 ?s) k sys1 = Some sys2" ..
  from assms have "getSpring sys k = Some ?s" by (simp add: getSpring_def)
  with a b True have "deleteSpring k sys = Some sys2"
    by (simp add: deleteSpring_def)
  thus ?thesis ..
qed

lemma wf_links_deleteSpring:
  assumes "wf_links sys" "deleteSpring k sys = Some sys'"
  shows "wf_links sys'"
proof -
  note f = deleteSpring_frame [OF assms(2)]
  have len: "length (springs sys') = length (springs sys)"
    by (simp add: f(7))
  have "\<forall>j < length (masses sys'). list_all (\<lambda>p. 0 \<le> p \<and> p < springCount sys') (parents (masses sys' ! j))"
  proof (intro allI impI)
    fix j assume "j < length (masses sys')"
    hence j: "j < length (masses sys)" by (simp add: f(5))
    with assms(1) have "list_all (\<lambda>p. 0 \<le> p \<and> p < springCount sys) (parents (masses sys ! j))"
      by (simp add: wf_links_def list_all_length)
    with f(6) [OF j] show "list_all (\<lambda>p. 0 \<le> p \<and> p < springCount sys') (parents (masses sys' ! j))"
      by (auto simp: list_all_iff springCount_def len)
  qed
  hence "list_all (\<lambda>m. list_all (\<lambda>p. 0 \<le> p \<and> p < springCount sys') (parents m)) (masses sys')"
    by (simp add: list_all_length [where xs = "masses sys'"])
  moreover have "list_all (\<lambda>s. isAlive s \<longrightarrow>
            0 \<le> m1 s \<and> m1 s < massCount sys' \<and> 0 \<le> m2 s \<and> m2 s < massCount sys') (springs sys')"
    using assms(1) by (auto simp: wf_links_def list_all_length f(7) f(5) massCount_def nth_list_update_if split: if_splits)
  ultimately show ?thesis by (simp add: wf_links_def)
qed

lemma deleteSprings_frame:
  assumes "deleteSprings pars sys = Some sys'"
  shows "state sys' = state sys \<and> fakeMass sys' = fakeMass sys \<and> fakeSpring sys' = fakeSpring sys
    \<and> map (parents_update (\<lambda>_. [])) (masses sys') = map (parents_update (\<lambda>_. [])) (masses sys)
    \<and> length (springs sys') = length (springs sys)
    \<and> (\<forall>k < length (springs sys). springs sys' ! k =
          (if int k \<in> set pars \<and> isAlive (springs sys ! k) then (springs sys ! k)\<lparr>status := 0\<rparr>
           else springs sys ! k))"
  using assms
proof (induction pars arbitrary: sys)
  case Nil
  then show ?case by simp
next
  case (Cons par pars)
  then obtain sys1 where a: "deleteSpring par sys = Some sys1" and b: "deleteSprings pars sys1 = Some sys'"
    by (auto split: bind_splits)
  note f = deleteSpring_frame [OF a]
  note ih = Cons.IH [OF b]
  from a have par: "0 \<le> par" "par < springCount sys"
    by (auto simp: deleteSpring_def getSpring_Some split: bind_splits)
  have len: "length (springs sys1) = length (springs sys)" by (simp add: f(7))
  have "\<forall>k < length (springs sys). springs sys' ! k =
          (if int k \<in> set (par # pars) \<and> isAlive (springs sys ! k) then (springs sys ! k)\<lparr>status := 0\<rparr>
           else springs sys ! k)"
  proof (intro allI impI)
    fix k assume k: "k < length (springs sys)"
    with ih len have 1: "springs sys' ! k =
          (if int k \<in> set pars \<and> isAlive (springs sys1 ! k) then (springs sys1 ! k)\<lparr>status := 0\<rparr>
           else springs sys1 ! k)" by simp
    have 2: "springs sys1 ! k = (if k = nat par \<and> isAlive (springs sys ! k) then (springs sys ! k)\<lparr>status := 0\<rparr>
           else springs sys ! k)"
      using k by (auto simp: f(7) nth_list_update)
    have 3: "k = nat par \<longleftrightarrow> int k = par" using par by auto
    show "springs sys' ! k =
          (if int k \<in> set (par # pars) \<and> isAlive (springs sys ! k) then (springs sys ! k)\<lparr>status := 0\<rparr>
           else springs sys ! k)"
      unfolding 1 2 3 by auto
  qed
  with ih f len show ?case by simp
qed

lemma deleteSprings_total:
  assumes "wf_links sys" "list_all (\<lambda>p. 0 \<le> p \<and> p < springCount sys) pars"
  shows "\<exists>sys'. deleteSprings pars sys = Some sys'"
  using assms
proof (induction pars arbitrary: sys)
  case Nil
  then show ?case by simp
next
  case (Cons par pars)
  then obtain sys1 where a: "deleteSpring par sys = Some sys1"
    using wf_links_deleteSpring_total [of sys par] by auto
  have "springCount sys1 = springCount sys"
    by (simp add: springCount_def deleteSpring_frame(7) [OF a])
  with Cons.prems wf_links_deleteSpring [OF Cons.prems(1) a]
  have "\<exists>sys'. deleteSprings pars sys1 = Some sys'"
    by (intro Cons.IH) simp_all
  with a show ?case by auto
qed

text \<open>The parent list the loop of deleteMass runs over is not changed by the loop.\<close>

lemma deleteMassParent_parents_dead:
  assumes "deleteMassParent w p sys = Some sys'" "j < length (masses sys)" "\<not> isAlive (masses sys ! j)"
  shows "masses sys' ! j = masses sys ! j"
  using assms
  by (auto simp: deleteMassParent_def getMass_Some putMass_def nth_list_update_if
      split: bind_splits if_splits)

lemma deleteSpring_parents_dead:
  assumes "deleteSpring k sys = Some sys'" "j < length (masses sys)" "\<not> isAlive (masses sys ! j)"
  shows "masses sys' ! j = masses sys ! j"
proof (cases "isAlive (springs sys ! nat k)")
  case False
  with assms show ?thesis by (auto simp: deleteSpring_def getSpring_Some split: bind_splits)
next
  case True
  with assms obtain sys1 where
    a: "deleteMassParent (m1 (springs sys ! nat k)) k
          (putSpring k ((springs sys ! nat k)\<lparr>status := 0\<rparr>) sys) = Some sys1"
    and b: "deleteMassParent (m2 (springs sys ! nat k)) k sys1 = Some sys'"
    by (auto simp: deleteSpring_def getSpring_Some split: bind_splits)
  from deleteMassParent_parents_dead [OF a] assms(2,3)
  have 1: "masses sys1 ! j = masses sys ! j" by (simp add: putSpring_def)
  from deleteMassParent_frame(6) [OF a] have "length (masses sys1) = length (masses sys)"
    by (simp add: putSpring_def)
  with deleteMassParent_parents_dead [OF b, of j] assms(2,3) 1 show ?thesis by simp
qed

lemma deleteSprings_parents_dead:
  assumes "deleteSprings pars sys = Some sys'" "j < length (masses sys)" "\<not> isAlive (masses sys ! j)"
  shows "masses sys' ! j = masses sys ! j"
  using assms
proof (induction pars arbitrary: sys)
  case Nil
  then show ?case by simp
next
  case (Cons par pars)
  then obtain sys1 where a: "deleteSpring par sys = Some sys1" and b: "deleteSprings pars sys1 = Some sys'"
    by (auto split: bind_splits)
  from deleteSpring_parents_dead [OF a Cons.prems(2,3)] deleteSpring_frame(5) [OF a] Cons.prems(2,3)
  have "j < length (masses sys1)" "\<not> isAlive (masses sys1 ! j)" "masses sys1 ! j = masses sys ! j"
    by simp_all
  with Cons.IH [OF b] show ?case by simp
qed

lemma wf_links_putMass_status:
  "wf_links sys \<Longrightarrow> wf_links (putMass i ((masses sys ! nat i)\<lparr>status := st\<rparr>) sys)"
  by (auto simp: wf_links_def putMass_def list_all_length nth_list_update_if springCount_def massCount_def)

text \<open>
  Claim C3. In a system whose links are in range, \<open>deleteMass i\<close> on an alive mass
  \<open>i\<close> returns, with the status of mass \<open>i\<close> cleared; every other mass keeps its
  status; a spring is alive afterwards exactly when it was alive before and is not listed
  in the parent list of mass \<open>i\<close> (a listed spring that was already dead stays dead), so
  the springs removed are exactly the alive springs of that list: two of them when two
  alive springs are attached. Both containers keep their length, and every entity keeps
  its index and all its fields other than the status and the parent list.
\<close>

theorem C3_deleteMass:
  assumes "wf_links sys" and "0 \<le> i" and "i < massCount sys"
    and "isAlive (masses sys ! nat i)"
  shows "\<exists>sys'. deleteMass i sys = Some sys'
     \<and> length (masses sys') = length (masses sys)
     \<and> length (springs sys') = length (springs sys)
     \<and> status (masses sys' ! nat i) = 0
     \<and> \<not> isAlive (masses sys' ! nat i)
     \<and> (\<forall>j < length (masses sys). j \<noteq> nat i \<longrightarrow>
            status (masses sys' ! j) = status (masses sys ! j))
     \<and> (\<forall>k < length (springs sys).
            isAlive (springs sys' ! k) =
              (isAlive (springs sys ! k) \<and> int k \<notin> set (parents (masses sys ! nat i))))
     \<and> {k. k < length (springs sys) \<and> isAlive (springs sys ! k) \<and> \<not> isAlive (springs sys' ! k)}
         = {k. k < length (springs sys) \<and> isAlive (springs sys ! k)
                \<and> int k \<in> set (parents (masses sys ! nat i))}
     \<and> map (\<lambda>m. m\<lparr>parents := [], status := 0\<rparr>) (masses sys')
         = map (\<lambda>m. m\<lparr>parents := [], status := 0\<rparr>) (masses sys)
     \<and> map (\<lambda>s. s\<lparr>status := 0\<rparr>) (springs sys')
         = map (\<lambda>s. s\<lparr>status := 0\<rparr>) (springs sys)"
proof -
  let ?m = "masses sys ! nat i"
  let ?sys0 = "putMass i (?m\<lparr>status := 0\<rparr>) sys"
  from assms have ni: "nat i < length (masses sys)" by (simp add: massCount_def)
  from assms have get: "getMass sys i = Some ?m" by (simp add: getMass_def)
  have wf0: "wf_links ?sys0" using assms(1) by (rule wf_links_putMass_status)
  from assms(1) ni have "list_all (\<lambda>p. 0 \<le> p \<and> p < springCount sys) (parents ?m)"
    by (simp add: wf_links_def list_all_length)
  hence "list_all (\<lambda>p. 0 \<le> p \<and> p < springCount ?sys0) (parents ?m)"
    by (simp add: springCount_def putMass_def)
  from deleteSprings_total [OF wf0 this]
  obtain sys1 where loop: "deleteSprings (parents ?m) ?sys0 = Some sys1" ..
  note f = deleteSprings_frame [OF loop]
  define sys' where "sys' = (if i = center_id (state sys1)
             then sys1\<lparr>state := (state sys1)\<lparr>center_id := - 1\<rparr>\<rparr> else sys1)"
  have res: "deleteMass i sys = Some sys'"
    using get assms(4) loop by (simp add: deleteMass_def sys'_def)
  have ms: "masses sys' = masses sys1" and ss: "springs sys' = springs sys1"
    by (simp_all add: sys'_def)
  have sp0: "springs ?sys0 = springs sys" by (simp add: putMass_def)
  have ms0: "masses ?sys0 = (masses sys)[nat i := ?m\<lparr>status := 0\<rparr>]" by (simp add: putMass_def)
  from f have pm: "map (parents_update (\<lambda>_. [])) (masses sys1) = map (parents_update (\<lambda>_. [])) (masses ?sys0)"
    by simp
  hence len: "length (masses sys1) = length (masses sys)"
    using ms0 by (metis length_list_update length_map)
  have nthm: "(masses sys1 ! j)\<lparr>parents := []\<rparr> = (masses ?sys0 ! j)\<lparr>parents := []\<rparr>"
    if "j < length (masses sys)" for j
    using that len ms0 arg_cong [OF pm, of "\<lambda>l. l ! j"] by simp
  have st: "status (masses sys1 ! j) = status (masses ?sys0 ! j)"
    if "j < length (masses sys)" for j
    using arg_cong [OF nthm [OF that], of status] by simp
  have lens: "length (springs sys1) = length (springs sys)" using f sp0 by simp
  have spr: "springs sys1 ! k =
          (if int k \<in> set (parents ?m) \<and> isAlive (springs sys ! k) then (springs sys ! k)\<lparr>status := 0\<rparr>
           else springs sys ! k)" if "k < length (springs sys)" for k
    using f that sp0 by simp
  have c1: "status (masses sys' ! nat i) = 0"
    using st [OF ni] ni by (simp add: ms ms0)
  have c2: "\<forall>j < length (masses sys). j \<noteq> nat i \<longrightarrow>
            status (masses sys' ! j) = status (masses sys ! j)"
    using st by (simp add: ms ms0)
  have c3: "\<forall>k < length (springs sys).
            isAlive (springs sys' ! k) =
              (isAlive (springs sys ! k) \<and> int k \<notin> set (parents ?m))"
    using spr by (auto simp: ss)
  have c4: "map (\<lambda>m. m\<lparr>parents := [], status := 0\<rparr>) (masses sys')
         = map (\<lambda>m. m\<lparr>parents := [], status := 0\<rparr>) (masses sys)"
  proof (rule nth_equalityI)
    show "length (map (\<lambda>m. m\<lparr>parents := [], status := 0\<rparr>) (masses sys')) =
          length (map (\<lambda>m. m\<lparr>parents := [], status := 0\<rparr>) (masses sys))"
      by (simp add: ms len)
  next
    fix j assume "j < length (map (\<lambda>m. m\<lparr>parents := [], status := 0\<rparr>) (masses sys'))"
    hence j: "j < length (masses sys)" by (simp add: ms len)
    from arg_cong [OF nthm [OF j], of "\<lambda>m. m\<lparr>status := 0\<rparr>"]
    have "(masses sys1 ! j)\<lparr>parents := [], status := 0\<rparr> = (masses sys ! j)\<lparr>parents := [], status := 0\<rparr>"
      using j by (cases "j = nat i") (simp_all add: ms0 nth_list_update_if)
    thus "map (\<lambda>m. m\<lparr>parents := [], status := 0\<rparr>) (masses sys') ! j =
          map (\<lambda>m. m\<lparr>parents := [], status := 0\<rparr>) (masses sys) ! j"
      using j by (simp add: ms len)
  qed
  have c5: "map (\<lambda>s. s\<lparr>status := 0\<rparr>) (springs sys')
         = map (\<lambda>s. s\<lparr>status := 0\<rparr>) (springs sys)"
    by (rule nth_equalityI) (simp_all add: ss lens spr)
  from c3 have c6: "{k. k < length (springs sys) \<and> isAlive (springs sys ! k) \<and> \<not> isAlive (springs sys' ! k)}
         = {k. k < length (springs sys) \<and> isAlive (springs sys ! k)
                \<and> int k \<in> set (parents ?m)}"
    by auto
  from c1 have c7: "\<not> isAlive (masses sys' ! nat i)" by (simp add: isAlive_def)
  from res c1 c2 c3 c4 c5 c6 c7 len lens ms ss show ?thesis by auto
qed

lemma ex_triangle_eval:
  "map isAlive (springs (the (deleteMass 1 ex_triangle))) = [False, False, True]
   \<and> map isAlive (masses (the (deleteMass 1 ex_triangle))) = [True, False, True]
   \<and> map parents (masses (the (deleteMass 1 ex_triangle))) = [[2], [0, 1], [2]]"
  by (simp add: ex_triangle_def deleteMass_def getMass_def massCount_def new_Mass_def
      zero_Mass_def new_Spring_def isAlive_def S_ALIVE_def putMass_def deleteSpring_def
      getSpring_def springCount_def putSpring_def deleteMassParent_def State_reset_def)

theorem C3_witness:
  "wf_links ex_triangle \<and> (0::int) \<le> 1 \<and> 1 < massCount ex_triangle
   \<and> isAlive (masses ex_triangle ! nat 1)
   \<and> (\<exists>sys'. deleteMass 1 ex_triangle = Some sys'
        \<and> map isAlive (springs sys') = [False, False, True]
        \<and> map isAlive (masses sys') = [True, False, True])"
proof -
  have h: "wf_links ex_triangle" "(0::int) \<le> 1" "1 < massCount ex_triangle"
    "isAlive (masses ex_triangle ! nat 1)"
    by (simp_all add: wf_links_def ex_triangle_def springCount_def massCount_def
        new_Mass_def new_Spring_def isAlive_def S_ALIVE_def)
  from C3_deleteMass [OF h] obtain sys' where "deleteMass 1 ex_triangle = Some sys'" by blast
  with ex_triangle_eval h show ?thesis by simp
qed

subsection \<open>Frame conditions of the force accumulator and the integrators\<close>

lemma length_for_masses [simp]: "length (for_masses f ms) = length ms"
  by (simp add: for_masses_def)

lemma nth_for_masses [simp]: "i < length ms \<Longrightarrow> for_masses f ms ! i = f i (ms ! i)"
  by (simp add: for_masses_def nth_enumerate_eq)

lemma map_for_masses:
  assumes "\<And>i m. g (f i m) = g m"
  shows "map g (for_masses f ms) = map g ms"
  by (rule nth_equalityI) (simp_all add: assms)

lemma free_kept: "kept m m' \<Longrightarrow> free m' = free m"
  by (simp add: kept_def free_def)

lemma kept_refl [simp]: "kept m m"
  by (simp add: kept_def)

lemma kept_trans: "kept a b \<Longrightarrow> kept b c \<Longrightarrow> kept a c"
  using free_kept [of a b] by (auto simp: kept_def)

lemma kept_all_refl [simp]: "list_all2 kept ms ms"
  by (simp add: list_all2_refl)

lemma kept_all_trans:
  "list_all2 kept a b \<Longrightarrow> list_all2 kept b c \<Longrightarrow> list_all2 kept a c"
  by (erule (1) list_all2_trans [rotated]) (rule kept_trans)

lemma kept_no_accel: "no_accel m' = no_accel m \<Longrightarrow> kept m m'"
proof -
  assume e: "no_accel m' = no_accel m"
  have "f m' = f m" if "\<And>a. f (no_accel a) = f a" for f :: "Mass \<Rightarrow> 'b"
    using arg_cong [OF e, of f] that by simp
  note 1 = this
  show ?thesis unfolding kept_def
    by (intro conjI impI 1) (simp_all add: no_accel_def)
qed

lemma kept_all_no_accel:
  assumes "map no_accel ms' = map no_accel ms"
  shows "list_all2 kept ms ms'"
proof -
  from assms have len: "length ms' = length ms" by (metis length_map)
  show ?thesis
  proof (rule list_all2_all_nthI)
    show "length ms = length ms'" using len by simp
  next
    fix n assume "n < length ms"
    with assms len have "no_accel (ms' ! n) = no_accel (ms ! n)"
      by (metis nth_map)
    thus "kept (ms ! n) (ms' ! n)" by (rule kept_no_accel)
  qed
qed

lemma kept_all_on_free:
  assumes "\<And>m. free m \<Longrightarrow> kept m (f m)"
  shows "list_all2 kept (masses sys) (masses (on_free f sys))"
  by (rule list_all2_all_nthI) (simp_all add: on_free_def assms)

lemma length_on_free [simp]: "length (masses (on_free f sys)) = length (masses sys)"
  by (simp add: on_free_def)

lemma no_accel_body [simp]: "no_accel (accel_body mst g og i m) = no_accel m"
  by (simp add: accel_body_def no_accel_def)

lemma no_accel_ptattract [simp]: "no_accel (accel_ptattract mst cx cy m) = no_accel m"
  by (simp add: accel_ptattract_def no_accel_def Let_def)

lemma no_accel_wall [simp]: "no_accel (accel_wall wd ht mst m) = no_accel m"
  by (simp add: accel_wall_def no_accel_def Let_def)

lemma no_accel_upd [simp]: "no_accel (m\<lparr>ax := a, ay := b\<rparr>) = no_accel m"
  by (simp add: no_accel_def)

lemma map_no_accel_update:
  "no_accel m' = no_accel (ms ! i) \<Longrightarrow> map no_accel (ms[i := m']) = map no_accel ms"
  by (cases "i < length ms") (simp_all add: map_update list_update_same_conv list_update_beyond)

lemma putMass_frame [simp]:
  "state (putMass i m sys) = state sys" "springs (putMass i m sys) = springs sys"
  "fakeMass (putMass i m sys) = fakeMass sys" "fakeSpring (putMass i m sys) = fakeSpring sys"
  "masses (putMass i m sys) = (masses sys)[nat i := m]"
  by (simp_all add: putMass_def)

lemma spring_accel_frame:
  assumes "spring_accel s sys = Some sys'"
  shows "state sys' = state sys \<and> springs sys' = springs sys
     \<and> fakeMass sys' = fakeMass sys \<and> fakeSpring sys' = fakeSpring sys
     \<and> map no_accel (masses sys') = map no_accel (masses sys)"
proof (cases "status s AND S_ALIVE \<noteq> 0")
  case False
  with assms show ?thesis by (simp add: spring_accel_def)
next
  case True
  with assms obtain a b where a: "getMass sys (m1 s) = Some a" and b: "getMass sys (m2 s) = Some b"
    by (auto simp: spring_accel_def split: bind_splits)
  show ?thesis
  proof (cases "x a - x b \<noteq> 0 \<or> y a - y b \<noteq> 0")
    case False
    with assms True a b show ?thesis by (simp add: spring_accel_def)
  next
    case c: True
    from a have a': "a = masses sys ! nat (m1 s)" by (simp add: getMass_Some)
    from assms True a b c have
      "sys' = putMass (m2 s)
         ((masses (putMass (m1 s) (a\<lparr>ax := ax a + fst (spring_force s a b) / mass a,
              ay := ay a + snd (spring_force s a b) / mass a\<rparr>) sys) ! nat (m2 s))
            \<lparr>ax := ax (masses (putMass (m1 s) (a\<lparr>ax := ax a + fst (spring_force s a b) / mass a,
              ay := ay a + snd (spring_force s a b) / mass a\<rparr>) sys) ! nat (m2 s)) - fst (spring_force s a b) / mass b,
             ay := ay (masses (putMass (m1 s) (a\<lparr>ax := ax a + fst (spring_force s a b) / mass a,
              ay := ay a + snd (spring_force s a b) / mass a\<rparr>) sys) ! nat (m2 s)) - snd (spring_force s a b) / mass b\<rparr>)
         (putMass (m1 s) (a\<lparr>ax := ax a + fst (spring_force s a b) / mass a,
              ay := ay a + snd (spring_force s a b) / mass a\<rparr>) sys)"
      by (simp add: spring_accel_def Let_def del: putMass_frame)
    thus ?thesis using a' by (simp add: map_no_accel_update)
  qed
qed

lemma spring_loop_frame:
  assumes "spring_loop ss sys = Some sys'"
  shows "state sys' = state sys \<and> springs sys' = springs sys
     \<and> fakeMass sys' = fakeMass sys \<and> fakeSpring sys' = fakeSpring sys
     \<and> map no_accel (masses sys') = map no_accel (masses sys)"
  using assms
proof (induction ss arbitrary: sys)
  case Nil
  then show ?case by simp
next
  case (Cons s ss)
  then obtain sys1 where a: "spring_accel s sys = Some sys1" and b: "spring_loop ss sys1 = Some sys'"
    by (auto split: bind_splits)
  from spring_accel_frame [OF a] Cons.IH [OF b] show ?case by simp
qed

lemma center_of_state:
  "center_of wd ht sys = Some (cx, cy, mst) \<Longrightarrow> mst = (state sys)\<lparr>center_id := center_id mst\<rparr>"
  by (auto simp: center_of_def Let_def split: if_splits bind_splits)

lemma accumulateAccel_frame:
  assumes "accumulateAccel wd ht sys = Some sys'"
  shows "state sys' = (state sys)\<lparr>center_id := center_id (state sys')\<rparr>"
    and "springs sys' = springs sys"
    and "fakeMass sys' = fakeMass sys" and "fakeSpring sys' = fakeSpring sys"
    and "map no_accel (masses sys') = map no_accel (masses sys)"
proof -
  from assms obtain cx cy mst ms3 where c: "center_of wd ht sys = Some (cx, cy, mst)"
    and l: "spring_loop (springs sys) (sys\<lparr>state := mst, masses := ms3\<rparr>) = Some sys'"
    and m: "map no_accel ms3 = map no_accel (masses sys)"
    by (auto simp: accumulateAccel_def Let_def map_for_masses split: bind_splits prod.splits)
  from spring_loop_frame [OF l] center_of_state [OF c] m
  show "state sys' = (state sys)\<lparr>center_id := center_id (state sys')\<rparr>"
    "springs sys' = springs sys" "fakeMass sys' = fakeMass sys" "fakeSpring sys' = fakeSpring sys"
    "map no_accel (masses sys') = map no_accel (masses sys)"
    by simp_all
qed

lemma step_rel_refl [simp]: "step_rel sys sys"
  by (simp add: step_rel_def)

lemma step_rel_trans: "step_rel a b \<Longrightarrow> step_rel b c \<Longrightarrow> step_rel a c"
  by (auto simp: step_rel_def intro: kept_all_trans)

lemma accumulateAccel_step_rel:
  assumes "accumulateAccel wd ht sys = Some sys'"
  shows "step_rel sys sys'"
proof -
  note f = accumulateAccel_frame [OF assms]
  from arg_cong [OF f(1), of "\<lambda>st. st\<lparr>center_id := 0, cur_dt := 0\<rparr>"]
  have "(state sys')\<lparr>center_id := 0, cur_dt := 0\<rparr> = (state sys)\<lparr>center_id := 0, cur_dt := 0\<rparr>"
    by simp
  with f kept_all_no_accel [OF f(5)] show ?thesis by (simp add: step_rel_def)
qed

lemma on_free_step_rel:
  assumes "\<And>m. free m \<Longrightarrow> kept m (f m)"
  shows "step_rel sys (on_free f sys)"
  using kept_all_on_free [of f sys, OF assms] by (simp add: step_rel_def on_free_def)

lemma scale_dt_step_rel: "step_rel sys (scale_dt c sys)"
  by (simp add: step_rel_def scale_dt_def)

lemma ark_clamp_step_rel: "step_rel sys (ark_clamp sys)"
  by (simp add: step_rel_def ark_clamp_def Let_def)

lemma stage_kept:
  assumes "free m"
  shows "kept m (rk_k1 h m)" "kept m (rk_k2 h m)" "kept m (rk_k3 h m)" "kept m (rk_k4 h m)"
    "kept m (rk_next t m)" "kept m (ark_k1 h m)" "kept m (ark_k2 h m)" "kept m (ark_k3 h m)"
    "kept m (ark_k4 h m)" "kept m (ark_k5 h m)" "kept m (ark_k6 h m)" "kept m (ark_next m)"
    "kept m (ark_rollback m)"
  using assms
  by (simp_all add: kept_def rk_k1_def rk_k2_def rk_k3_def rk_k4_def rk_next_def ark_k1_def
      ark_k2_def ark_k3_def ark_k4_def ark_k5_def ark_k6_def ark_next_def ark_rollback_def
      Let_def)

lemma rungeKutta_step_rel:
  assumes "rungeKutta wd ht h t sys = Some sys'"
  shows "step_rel sys sys'"
proof -
  from assms obtain s1 s2 s3 s4 where
    1: "accumulateAccel wd ht sys = Some s1"
    and 2: "accumulateAccel wd ht (on_free (rk_k1 h) s1) = Some s2"
    and 3: "accumulateAccel wd ht (on_free (rk_k2 h) s2) = Some s3"
    and 4: "accumulateAccel wd ht (on_free (rk_k3 h) s3) = Some s4"
    and 5: "sys' = on_free (rk_next t) (on_free (rk_k4 h) s4)"
    by (auto simp: rungeKutta_def split: bind_splits)
  note r = accumulateAccel_step_rel on_free_step_rel stage_kept
  have "step_rel sys (on_free (rk_k1 h) s1)" by (rule step_rel_trans [OF r(1) [OF 1]]) (simp add: r)
  hence "step_rel sys (on_free (rk_k2 h) s2)"
    by (rule step_rel_trans) (rule step_rel_trans [OF r(1) [OF 2]], simp add: r)
  hence "step_rel sys (on_free (rk_k3 h) s3)"
    by (rule step_rel_trans) (rule step_rel_trans [OF r(1) [OF 3]], simp add: r)
  hence "step_rel sys (on_free (rk_k4 h) s4)"
    by (rule step_rel_trans) (rule step_rel_trans [OF r(1) [OF 4]], simp add: r)
  thus ?thesis unfolding 5
    by (rule step_rel_trans) (simp add: r)
qed

lemma rungeKutta_cur_dt:
  assumes "rungeKutta wd ht h t sys = Some sys'"
  shows "cur_dt (state sys') = cur_dt (state sys)"
  using assms
  by (auto simp: rungeKutta_def split: bind_splits dest!: accumulateAccel_cur_dt)

lemma ark_stages_step_rel:
  assumes "ark_stages wd ht sys = Some sys'"
  shows "step_rel sys sys'"
proof -
  define h where "h = cur_dt (state (ark_clamp sys))"
  from assms obtain s1 s2 s3 s4 s5 s6 where
    1: "accumulateAccel wd ht (ark_clamp sys) = Some s1"
    and 2: "accumulateAccel wd ht (on_free (ark_k1 h) s1) = Some s2"
    and 3: "accumulateAccel wd ht (on_free (ark_k2 h) s2) = Some s3"
    and 4: "accumulateAccel wd ht (on_free (ark_k3 h) s3) = Some s4"
    and 5: "accumulateAccel wd ht (on_free (ark_k4 h) s4) = Some s5"
    and 6: "accumulateAccel wd ht (on_free (ark_k5 h) s5) = Some s6"
    and 7: "sys' = on_free (ark_k6 h) s6"
    by (auto simp: ark_stages_def Let_def h_def split: bind_splits)
  note r = accumulateAccel_step_rel on_free_step_rel stage_kept
  have "step_rel sys (on_free (ark_k1 h) s1)"
    by (rule step_rel_trans [OF ark_clamp_step_rel]) (rule step_rel_trans [OF r(1) [OF 1]], simp add: r)
  hence "step_rel sys (on_free (ark_k2 h) s2)"
    by (rule step_rel_trans) (rule step_rel_trans [OF r(1) [OF 2]], simp add: r)
  hence "step_rel sys (on_free (ark_k3 h) s3)"
    by (rule step_rel_trans) (rule step_rel_trans [OF r(1) [OF 3]], simp add: r)
  hence "step_rel sys (on_free (ark_k4 h) s4)"
    by (rule step_rel_trans) (rule step_rel_trans [OF r(1) [OF 4]], simp add: r)
  hence "step_rel sys (on_free (ark_k5 h) s5)"
    by (rule step_rel_trans) (rule step_rel_trans [OF r(1) [OF 5]], simp add: r)
  hence "step_rel sys (on_free (ark_k6 h) s6)"
    by (rule step_rel_trans) (rule step_rel_trans [OF r(1) [OF 6]], simp add: r)
  thus "step_rel sys sys'" by (simp add: 7)
qed


lemma ark_pass_cases:
  assumes "ark_pass wd ht sys = Some out"
  obtains s6 where "ark_stages wd ht sys = Some s6"
    and "out = (if ark_maxerr s6 < 1
                then Accepted (on_free ark_next (scale_dt (0.9 * exp (- ln (ark_maxerr s6) / 8)) s6))
                else if cur_dt (state s6) > DT_MIN
                then Rejected (scale_dt (0.9 * exp (- ln (ark_maxerr s6) / 4)) (on_free ark_rollback s6))
                else Accepted (on_free ark_next s6))"
  using assms by (auto simp: ark_pass_def Let_def split: bind_splits if_splits)

lemma kept_all_nth:
  "list_all2 kept ms ms' \<Longrightarrow> j < length ms \<Longrightarrow> kept (ms ! j) (ms' ! j)"
  by (simp add: list_all2_nthD)

subsection \<open>The adaptive step\<close>

text \<open>
  Claim C1. One pass through the body of the adaptive integrator runs the six stages
  with the clamped step size \<open>cur_dt\<close>, which lies in \<open>[DT_MIN, DT_MAX]\<close>, and
  computes the error ratio \<open>maxerr\<close>. If the pass is accepted (its result is what
  the integrator returns) then \<open>maxerr < 1\<close> or \<open>cur_dt = DT_MIN\<close>. If it is
  rejected then \<open>maxerr \<ge> 1\<close> and \<open>cur_dt > DT_MIN\<close>; in the state the next pass
  starts from, every free mass has the position and velocity saved in its
  \<^verbatim>\<open>old_*\<close> fields on entry (the snapshot \<^verbatim>\<open>advance\<close> takes before the step),
  every other mass has its position and velocity unchanged, \<open>cur_dt\<close> has been
  multiplied by \<open>0.9 * exp (- ln maxerr / 4)\<close>, and the integrator continues with
  the whole pass from that state.
\<close>

theorem C1_adaptive_step:
  assumes "ark_pass wd ht sys = Some out"
  shows "\<exists>s6. ark_stages wd ht sys = Some s6
     \<and> DT_MIN \<le> cur_dt (state s6) \<and> cur_dt (state s6) \<le> DT_MAX
     \<and> (case out of
          Accepted s' \<Rightarrow>
            (ark_maxerr s6 < 1 \<or> cur_dt (state s6) = DT_MIN)
            \<and> adaptiveRungeKutta wd ht sys = Some s'
        | Rejected s' \<Rightarrow>
            1 \<le> ark_maxerr s6 \<and> DT_MIN < cur_dt (state s6)
            \<and> cur_dt (state s') = cur_dt (state s6) * (0.9 * exp (- ln (ark_maxerr s6) / 4))
            \<and> length (masses s') = length (masses sys)
            \<and> (\<forall>j < length (masses sys).
                  free (masses s' ! j) = free (masses sys ! j)
                  \<and> (if free (masses sys ! j)
                     then x (masses s' ! j) = old_x (masses sys ! j)
                          \<and> y (masses s' ! j) = old_y (masses sys ! j)
                          \<and> vx (masses s' ! j) = old_vx (masses sys ! j)
                          \<and> vy (masses s' ! j) = old_vy (masses sys ! j)
                     else x (masses s' ! j) = x (masses sys ! j)
                          \<and> y (masses s' ! j) = y (masses sys ! j)
                          \<and> vx (masses s' ! j) = vx (masses sys ! j)
                          \<and> vy (masses s' ! j) = vy (masses sys ! j)))
            \<and> adaptiveRungeKutta wd ht sys = adaptiveRungeKutta wd ht s')"
proof -
  from assms obtain s6 where s6: "ark_stages wd ht sys = Some s6"
    and out: "out = (if ark_maxerr s6 < 1
                then Accepted (on_free ark_next (scale_dt (0.9 * exp (- ln (ark_maxerr s6) / 8)) s6))
                else if cur_dt (state s6) > DT_MIN
                then Rejected (scale_dt (0.9 * exp (- ln (ark_maxerr s6) / 4)) (on_free ark_rollback s6))
                else Accepted (on_free ark_next s6))"
    by (rule ark_pass_cases)
  have dt: "cur_dt (state s6) = cur_dt (state (ark_clamp sys))"
    using s6 by (rule ark_stages_cur_dt)
  have b: "DT_MIN \<le> cur_dt (state s6)" "cur_dt (state s6) \<le> DT_MAX"
    using ark_clamp_bounds [of sys] by (simp_all add: dt)
  have k6: "list_all2 kept (masses sys) (masses s6)"
    using ark_stages_step_rel [OF s6] by (simp add: step_rel_def)
  hence len: "length (masses s6) = length (masses sys)"
    by (simp add: list_all2_lengthD)
  show ?thesis
  proof (cases out)
    case (Accepted s')
    with out b have "ark_maxerr s6 < 1 \<or> cur_dt (state s6) = DT_MIN"
      by (auto split: if_splits)
    moreover from Accepted assms have "adaptiveRungeKutta wd ht sys = Some s'" by simp
    ultimately show ?thesis using s6 b Accepted by simp
  next
    case (Rejected s')
    with out have me: "1 \<le> ark_maxerr s6" and h: "DT_MIN < cur_dt (state s6)"
      and s': "s' = scale_dt (0.9 * exp (- ln (ark_maxerr s6) / 4)) (on_free ark_rollback s6)"
      by (auto split: if_splits)
    have ms': "masses s' = masses (on_free ark_rollback s6)"
      by (simp add: s' scale_dt_def)
    have c1: "cur_dt (state s') = cur_dt (state s6) * (0.9 * exp (- ln (ark_maxerr s6) / 4))"
      by (simp add: s' scale_dt_def)
    have c2: "length (masses s') = length (masses sys)"
      by (simp add: ms' len)
    have c3: "free (masses s' ! j) = free (masses sys ! j)
                  \<and> (if free (masses sys ! j)
                     then x (masses s' ! j) = old_x (masses sys ! j)
                          \<and> y (masses s' ! j) = old_y (masses sys ! j)
                          \<and> vx (masses s' ! j) = old_vx (masses sys ! j)
                          \<and> vy (masses s' ! j) = old_vy (masses sys ! j)
                     else x (masses s' ! j) = x (masses sys ! j)
                          \<and> y (masses s' ! j) = y (masses sys ! j)
                          \<and> vx (masses s' ! j) = vx (masses sys ! j)
                          \<and> vy (masses s' ! j) = vy (masses sys ! j))"
      if j: "j < length (masses sys)" for j
    proof -
      from kept_all_nth [OF k6 j] have k: "kept (masses sys ! j) (masses s6 ! j)" .
      hence f: "free (masses s6 ! j) = free (masses sys ! j)" by (rule free_kept)
      have n: "masses s' ! j = (if free (masses s6 ! j) then ark_rollback (masses s6 ! j)
                 else masses s6 ! j)"
        using j len by (simp add: ms' on_free_def)
      show ?thesis using k f
        by (simp add: n kept_def ark_rollback_def free_def)
    qed
    from Rejected assms have c4: "adaptiveRungeKutta wd ht sys = adaptiveRungeKutta wd ht s'"
      by simp
    from s6 b me h c1 c2 c3 c4 Rejected show ?thesis by simp
  qed
qed

lemmas ev_defs = ex_pair_def State_reset_def new_Mass_def zero_Mass_def new_Spring_def
  accumulateAccel_def center_of_def gravity_def cmass_force_def for_masses_def accel_body_def
  spring_accel_def spring_force_def getMass_def massCount_def putMass_def free_def
  S_ALIVE_def S_FIXED_def FR_GRAV_def FR_CMASS_def FR_PTATTRACT_def FR_WALL_def
  on_free_def enumerate_eq_zip Let_def DEF_TSTEP_def DT_MIN_def DT_MAX_def

lemmas ark_defs = ark_stages_def ark_clamp_def ark_k1_def ark_k2_def ark_k3_def ark_k4_def
  ark_k5_def ark_k6_def ark_pass_def ark_maxerr_def ark_err_def scale_dt_def ark_rollback_def


lemma ex_pair_rejected:
  "\<exists>s'. ark_pass 400 300 (on_free save_old ex_pair) = Some (Rejected s')
      \<and> map x (masses s') = [100, 200] \<and> map vx (masses s') = [0, 0]"
  by (simp add: ark_defs ev_defs save_old_def)

theorem C1_witness:
  "\<exists>s' s6. ark_pass 400 300 (on_free save_old ex_pair) = Some (Rejected s')
     \<and> ark_stages 400 300 (on_free save_old ex_pair) = Some s6
     \<and> 1 \<le> ark_maxerr s6 \<and> DT_MIN < cur_dt (state s6)
     \<and> cur_dt (state s') = cur_dt (state s6) * (0.9 * exp (- ln (ark_maxerr s6) / 4))
     \<and> map x (masses s') = [100, 200]
     \<and> adaptiveRungeKutta 400 300 (on_free save_old ex_pair) = adaptiveRungeKutta 400 300 s'"
proof -
  from ex_pair_rejected obtain s' where
    h: "ark_pass 400 300 (on_free save_old ex_pair) = Some (Rejected s')"
    and m: "map x (masses s') = [100, 200]"
    by (elim exE conjE)
  from C1_adaptive_step [OF h] show ?thesis using h m by auto
qed

subsection \<open>Entity store: the selection\<close>

text \<open>
  Claim C9 fails on the code in two places. The spring loop of \<^verbatim>\<open>evalSelection\<close>
  compares \<^verbatim>\<open>ks\<close> twice and never \<^verbatim>\<open>kd\<close>, so \<^verbatim>\<open>kd_same\<close> stays true: two
  selected springs that disagree on the damping still copy the damping of the first one
  into \<^verbatim>\<open>cur_kd\<close>, and the call returns true. The mass loop clears \<^verbatim>\<open>fix_same\<close>
  whenever a later selected mass is fixed, whatever the first one was: two selected masses
  that are both fixed do not copy the flag, and the call returns false.
\<close>

theorem C9_evalSelection_disagrees:
  "evalSelection ex_selected_springs =
     (True, ex_selected_springs\<lparr>state := State_reset\<lparr>cur_kd := 7\<rparr>\<rparr>)
   \<and> map kd (springs ex_selected_springs) = [7, 2]
   \<and> map isSelected (springs ex_selected_springs) = [True, True]
   \<and> evalSelection ex_selected_fixed = (False, ex_selected_fixed)
   \<and> map isFixed (masses ex_selected_fixed) = [True, True]
   \<and> map isSelected (masses ex_selected_fixed) = [True, True]
   \<and> fix_mass (state ex_selected_fixed) = False"
  by (simp add: evalSelection_def ex_selected_springs_def ex_selected_fixed_def
      eval_mass_step_def eval_spring_step_def eval_mass_apply_def eval_spring_apply_def
      State_reset_def new_Mass_def zero_Mass_def new_Spring_def isSelected_def isFixed_def
      S_SELECTED_def S_FIXED_def S_ALIVE_def Let_def)

subsection \<open>One step: the walls, the collisions and the fixed masses\<close>

lemma wall_code_eq:
  "wall_code wd ht sm i sys =
     Some (putMass (int i) (wall_mass wd ht (state sys) sm (masses sys ! i)) sys)"
  by (simp add: wall_code_def wall_mass_def Let_def putMass_def split: option.splits)

lemma for_index_snoc:
  "for_index f (xs @ [k]) sys = Option.bind (for_index f xs sys) (f k)"
proof (induction xs arbitrary: sys)
  case Nil
  show ?case by (cases "f k sys") simp_all
next
  case (Cons a xs)
  show ?case by (cases "f a sys") (simp_all add: Cons.IH)
qed

lemma map_prefix_step:
  assumes "k < length ms"
  shows "(map g (take k ms) @ drop k ms)[k := g (ms ! k)]
           = map g (take (Suc k) ms) @ drop (Suc k) ms"
proof (rule nth_equalityI)
  show "length ((map g (take k ms) @ drop k ms)[k := g (ms ! k)])
          = length (map g (take (Suc k) ms) @ drop (Suc k) ms)"
    using assms by simp
next
  fix n assume "n < length ((map g (take k ms) @ drop k ms)[k := g (ms ! k)])"
  hence n: "n < length ms" using assms by simp
  consider "n < k" | "n = k" | "k < n" by linarith
  thus "(map g (take k ms) @ drop k ms)[k := g (ms ! k)] ! n
          = (map g (take (Suc k) ms) @ drop (Suc k) ms) ! n"
  proof cases
    case 1
    with n assms show ?thesis by (simp add: nth_append)
  next
    case 2
    with n assms show ?thesis by (simp add: nth_append)
  next
    case 3
    with n assms show ?thesis by (simp add: nth_append min_def)
  qed
qed

lemma wall_loop_prefix:
  "k \<le> length (masses sys) \<Longrightarrow>
   for_index (wall_code wd ht sm) [0..<k] sys =
     Some (sys\<lparr>masses := map (wall_mass wd ht (state sys) sm) (take k (masses sys))
                         @ drop k (masses sys)\<rparr>)"
proof (induction k)
  case 0
  show ?case by simp
next
  case (Suc k)
  hence k: "k < length (masses sys)" by simp
  let ?g = "wall_mass wd ht (state sys) sm"
  let ?sysk = "sys\<lparr>masses := map ?g (take k (masses sys)) @ drop k (masses sys)\<rparr>"
  have ih: "for_index (wall_code wd ht sm) [0..<k] sys = Some ?sysk"
    using Suc by simp
  have nk: "masses ?sysk ! k = masses sys ! k"
    using k by (simp add: nth_append)
  have "wall_code wd ht sm k ?sysk =
          Some (?sysk\<lparr>masses := (masses ?sysk)[k := ?g (masses sys ! k)]\<rparr>)"
    unfolding wall_code_eq putMass_def nk by simp
  also have "(masses ?sysk)[k := ?g (masses sys ! k)]
      = map ?g (take (Suc k) (masses sys)) @ drop (Suc k) (masses sys)"
    using map_prefix_step [OF k, of ?g] by simp
  finally have step: "wall_code wd ht sm k ?sysk =
      Some (sys\<lparr>masses := map ?g (take (Suc k) (masses sys)) @ drop (Suc k) (masses sys)\<rparr>)"
    by simp
  have "for_index (wall_code wd ht sm) [0..<Suc k] sys
      = Option.bind (for_index (wall_code wd ht sm) [0..<k] sys) (wall_code wd ht sm k)"
    by (simp only: upt_Suc_append [OF le0] for_index_snoc)
  also have "\<dots> = wall_code wd ht sm k ?sysk"
    by (simp add: ih)
  finally show ?case using step by simp
qed

lemma wall_loop_eq:
  "wall_loop wd ht sm sys = Some (sys\<lparr>masses := map (wall_mass wd ht (state sys) sm) (masses sys)\<rparr>)"
  using wall_loop_prefix [of "length (masses sys)" sys wd ht sm] by (simp add: wall_loop_def)

lemma bounce_x_kept: "free m \<Longrightarrow> kept m (bounce_x wd mst m)"
  by (simp add: kept_def bounce_x_def Let_def)

lemma bounce_y_kept: "free m \<Longrightarrow> kept m (bounce_y ht mst m)"
  by (simp add: kept_def bounce_y_def Let_def)

lemma wall_mass_kept: "kept m (wall_mass wd ht mst sm m)"
proof (cases "free m")
  case False
  then show ?thesis by (simp add: wall_mass_def)
next
  case True
  have p: "kept m (pinned m)" using True by (simp add: kept_def pinned_def)
  have bx: "kept m (bounce_x wd mst m)" using True by (rule bounce_x_kept)
  hence "free (bounce_x wd mst m)" using True by (simp add: free_kept)
  hence "kept (bounce_x wd mst m) (bounce_y ht mst (bounce_x wd mst m))" by (rule bounce_y_kept)
  with bx have b: "kept m (bounce_y ht mst (bounce_x wd mst m))" by (rule kept_trans)
  show ?thesis
  proof (cases "wall_stick wd ht mst sm m")
    case None
    with True b show ?thesis by (simp add: wall_mass_def)
  next
    case (Some m')
    hence "m' = pinned m"
      by (auto simp: wall_stick_def Let_def split: if_splits)
    with True p Some show ?thesis by (simp add: wall_mass_def)
  qed
qed

lemma wall_loop_step_rel:
  assumes "wall_loop wd ht sm sys = Some sys'"
  shows "step_rel sys sys'" and "state sys' = state sys"
proof -
  from assms have e: "sys' = sys\<lparr>masses := map (wall_mass wd ht (state sys) sm) (masses sys)\<rparr>"
    by (simp add: wall_loop_eq)
  have "list_all2 kept (masses sys) (map (wall_mass wd ht (state sys) sm) (masses sys))"
    by (rule list_all2_all_nthI) (simp_all add: wall_mass_kept)
  thus "step_rel sys sys'" by (simp add: e step_rel_def)
  show "state sys' = state sys" by (simp add: e)
qed

lemma anchored_refl [simp]: "anchored m m"
  by (simp add: anchored_def)

lemma anchored_trans: "anchored a b \<Longrightarrow> anchored b c \<Longrightarrow> anchored a c"
  by (auto simp: anchored_def)

lemma kept_anchored: "kept m m' \<Longrightarrow> anchored m m'"
  by (auto simp: kept_def anchored_def free_def)

lemma anchored_all_trans:
  "list_all2 anchored a b \<Longrightarrow> list_all2 anchored b c \<Longrightarrow> list_all2 anchored a c"
  by (erule (1) list_all2_trans [rotated]) (rule anchored_trans)

lemma anchored_all_refl [simp]: "list_all2 anchored ms ms"
  by (simp add: list_all2_refl)

lemma anchored_update2:
  assumes "anchored (ms ! i) a" "anchored (ms ! j) b" "i \<noteq> j"
  shows "list_all2 anchored ms (ms[i := a, j := b])"
  by (rule list_all2_all_nthI) (use assms in \<open>auto simp: nth_list_update_if\<close>)

lemma impact_anchored: "anchored m (impact m other e a b c d dx dy dxq dyq sq)"
  by (simp add: impact_def anchored_def Let_def)

lemma collide_pair_anchored:
  assumes "i \<noteq> j"
  shows "list_all2 anchored ms (collide_pair r cx cy i j ms)"
  unfolding collide_pair_def Let_def
  by (simp add: anchored_update2 [OF _ _ assms] impact_anchored)

lemma fold_anchored:
  assumes "\<And>k ns. k \<in> set ks' \<Longrightarrow> list_all2 anchored ns (f k ns)"
  shows "list_all2 anchored ms (fold f ks' ms)"
  using assms
proof (induction ks' arbitrary: ms)
  case Nil
  show ?case by simp
next
  case (Cons k ks')
  have "list_all2 anchored ms (f k ms)" using Cons.prems by simp
  moreover have "list_all2 anchored (f k ms) (fold f ks' (f k ms))"
    using Cons.prems by (intro Cons.IH) simp
  ultimately show ?case by (simp add: anchored_all_trans)
qed

lemma collide_from_anchored: "list_all2 anchored ms (collide_from i ms)"
proof (cases "status (ms ! i) AND S_ALIVE \<noteq> 0")
  case False
  then show ?thesis by (simp add: collide_from_def)
next
  case True
  have "list_all2 anchored ms (fold (collide_pair r cx cy i) [Suc i..<length ms] ms)" for r cx cy
  proof (rule fold_anchored)
    fix k ns assume "k \<in> set [Suc i..<length ms]"
    hence "i \<noteq> k" by simp
    thus "list_all2 anchored ns (collide_pair r cx cy i k ns)" by (rule collide_pair_anchored)
  qed
  with True show ?thesis by (simp add: collide_from_def Let_def)
qed

lemma collide_all_anchored:
  "list_all2 anchored (masses sys) (masses (collide_all sys))"
proof (cases "collide (state sys)")
  case False
  then show ?thesis by (simp add: collide_all_def)
next
  case True
  have "list_all2 anchored (masses sys) (fold collide_from [0..<length (masses sys)] (masses sys))"
    by (rule fold_anchored) (rule collide_from_anchored)
  with True show ?thesis by (simp add: collide_all_def)
qed

lemma collide_all_frame [simp]:
  "state (collide_all sys) = state sys" "springs (collide_all sys) = springs sys"
  by (simp_all add: collide_all_def)

lemma ark_pass_step_rel:
  assumes "ark_pass wd ht sys = Some out"
  shows "step_rel sys (case out of Accepted s \<Rightarrow> s | Rejected s \<Rightarrow> s)"
proof -
  from assms obtain s6 where s6: "ark_stages wd ht sys = Some s6"
    and out: "out = (if ark_maxerr s6 < 1
                then Accepted (on_free ark_next (scale_dt (0.9 * exp (- ln (ark_maxerr s6) / 8)) s6))
                else if cur_dt (state s6) > DT_MIN
                then Rejected (scale_dt (0.9 * exp (- ln (ark_maxerr s6) / 4)) (on_free ark_rollback s6))
                else Accepted (on_free ark_next s6))"
    by (rule ark_pass_cases)
  note r = ark_stages_step_rel [OF s6]
  have a: "step_rel sys (on_free ark_next (scale_dt c s6))" for c
    by (rule step_rel_trans [OF r], rule step_rel_trans [OF scale_dt_step_rel [of s6 c]])
       (simp add: on_free_step_rel stage_kept)
  have b: "step_rel sys (scale_dt c (on_free ark_rollback s6))" for c
    by (rule step_rel_trans [OF r],
        rule step_rel_trans [OF _ scale_dt_step_rel [of "on_free ark_rollback s6" c]])
       (simp add: on_free_step_rel stage_kept)
  have c: "step_rel sys (on_free ark_next s6)"
    by (rule step_rel_trans [OF r]) (simp add: on_free_step_rel stage_kept)
  show ?thesis unfolding out using a b c by simp
qed

lemma adaptiveRungeKutta_step_rel:
  "adaptiveRungeKutta wd ht sys = Some sys' \<Longrightarrow> step_rel sys sys'"
proof (induction wd ht sys rule: adaptiveRungeKutta.induct)
  case (1 wd ht sys)
  from "1.prems" obtain out where out: "ark_pass wd ht sys = Some out"
    by (cases "ark_pass wd ht sys") simp_all
  show ?case
  proof (cases out)
    case (Accepted s)
    with out "1.prems" have "sys' = s" by simp
    with ark_pass_step_rel [OF out] Accepted show ?thesis by simp
  next
    case (Rejected s)
    with out "1.prems" have "adaptiveRungeKutta wd ht s = Some sys'" by simp
    with "1.IH" out Rejected have "step_rel s sys'" by simp
    moreover from ark_pass_step_rel [OF out] Rejected have "step_rel sys s" by simp
    ultimately show ?thesis by (rule step_rel_trans [rotated])
  qed
qed

lemma integrate_step_rel:
  assumes "integrate wd ht sys = Some sys'"
  shows "step_rel sys sys'"
proof (cases "adaptive_step (state sys)")
  case False
  with assms have "rungeKutta wd ht (cur_dt (state sys)) False sys = Some sys'"
    by (simp add: integrate_def)
  thus ?thesis by (rule rungeKutta_step_rel)
next
  case True
  show ?thesis
  proof (cases "any_spring sys")
    case s: True
    with True assms have "adaptiveRungeKutta wd ht sys = Some sys'"
      by (simp only: integrate_def if_True)
    thus ?thesis by (rule adaptiveRungeKutta_step_rel)
  next
    case s: False
    let ?sys0 = "sys\<lparr>state := (state sys)\<lparr>cur_dt := DEF_TSTEP\<rparr>\<rparr>"
    from s True assms have "rungeKutta wd ht DEF_TSTEP False ?sys0 = Some sys'"
      by (simp only: integrate_def if_True if_False)
    hence "step_rel ?sys0 sys'" by (rule rungeKutta_step_rel)
    moreover have "step_rel sys ?sys0" by (simp add: step_rel_def)
    ultimately show ?thesis by (rule step_rel_trans [rotated])
  qed
qed

lemma step_rel_anchored: "step_rel sys sys' \<Longrightarrow> list_all2 anchored (masses sys) (masses sys')"
  unfolding step_rel_def
  by (auto elim!: list_all2_mono kept_anchored)

lemma save_old_anchored: "list_all2 anchored (masses sys) (masses (on_free save_old sys))"
  by (rule list_all2_all_nthI) (simp_all add: on_free_def anchored_def save_old_def)

lemma advance_system_anchored:
  assumes "advance_system wd ht sys = Some sys'"
  shows "list_all2 anchored (masses sys) (masses sys')"
proof -
  from assms obtain sys1 sys2 where
    1: "integrate wd ht (on_free save_old sys) = Some sys1"
    and 2: "wall_loop wd ht (STICK_MAG * cur_dt (state sys1) * cur_stick (state sys1)) sys1 = Some sys2"
    and 3: "sys' = collide_all sys2"
    by (auto simp: advance_system_def split: bind_splits)
  have "list_all2 anchored (masses sys) (masses sys1)"
    by (rule anchored_all_trans [OF save_old_anchored step_rel_anchored [OF integrate_step_rel [OF 1]]])
  hence "list_all2 anchored (masses sys) (masses sys2)"
    by (rule anchored_all_trans) (rule step_rel_anchored [OF wall_loop_step_rel(1) [OF 2]])
  thus ?thesis unfolding 3
    by (rule anchored_all_trans) (rule collide_all_anchored)
qed

text \<open>
  Claim C10. One call of \<^verbatim>\<open>advance\<close> leaves the position \<open>(x, y)\<close>, the velocity
  \<open>(vx, vy)\<close> and the status of every mass whose status includes FIXED unchanged,
  whatever forces, walls and collision flag are set, and keeps the number of masses:
  the saving loop, both integrators, the wall code and the collision response write the
  position and velocity of masses that are not fixed only.
\<close>

theorem C10_fixed_mass_unmoved:
  assumes "advance fp p st = Some (r, p', st')"
    and "j < length (masses (system p))"
    and "status (masses (system p) ! j) AND S_FIXED \<noteq> 0"
  shows "length (masses (system p')) = length (masses (system p))
     \<and> x (masses (system p') ! j) = x (masses (system p) ! j)
     \<and> y (masses (system p') ! j) = y (masses (system p) ! j)
     \<and> vx (masses (system p') ! j) = vx (masses (system p) ! j)
     \<and> vy (masses (system p') ! j) = vy (masses (system p) ! j)
     \<and> status (masses (system p') ! j) = status (masses (system p) ! j)"
proof -
  from assms(1) obtain sys' where a: "advance_system (width p) (height p) (system p) = Some sys'"
    and p': "system p' = sys'"
    by (auto simp: advance_def Let_def split: bind_splits prod.splits)
  from advance_system_anchored [OF a]
  have l: "list_all2 anchored (masses (system p)) (masses sys')" .
  hence "anchored (masses (system p) ! j) (masses sys' ! j)"
    using assms(2) by (rule list_all2_nthD)
  with assms(3) list_all2_lengthD [OF l] show ?thesis
    by (simp add: p' anchored_def)
qed

lemmas rk_defs = rungeKutta_def rk_k1_def rk_k2_def rk_k3_def rk_k4_def rk_next_def
lemmas adv_defs = advance_def advance_system_def integrate_def save_old_def wall_loop_eq
  wall_mass_def wall_stick_def near_side_wall_def near_end_wall_def bounce_x_def bounce_y_def collide_all_def frame_pacer_def
  screenRadius_def sphereRadius_def sphereSize_def cdiv_def STICK_MAG_def statics0_def

lemma ex_anchor_advance:
  "\<exists>p'. advance ieee ex_anchor statics0
        = Some (False, p', \<lparr>num_since = 1, time_elapsed = dbl 0.025\<rparr>)
      \<and> map x (masses (system p')) = [100, 200.25]
      \<and> map vx (masses (system p')) = [3, 10]"
  by (simp add: ex_anchor_def adv_defs rk_defs ev_defs ieee_def) (simp add: dbl_defs)

theorem C10_witness:
  "\<exists>p'. advance ieee ex_anchor statics0
        = Some (False, p', \<lparr>num_since = 1, time_elapsed = dbl 0.025\<rparr>)
      \<and> 0 < length (masses (system ex_anchor))
      \<and> status (masses (system ex_anchor) ! 0) AND S_FIXED \<noteq> 0
      \<and> x (masses (system p') ! 0) = 100 \<and> y (masses (system p') ! 0) = 100
      \<and> vx (masses (system p') ! 0) = 3 \<and> vy (masses (system p') ! 0) = 4
      \<and> map x (masses (system p')) = [100, 200.25]"
proof -
  from ex_anchor_advance obtain p' where
    a: "advance ieee ex_anchor statics0
        = Some (False, p', \<lparr>num_since = 1, time_elapsed = dbl 0.025\<rparr>)"
    and m: "map x (masses (system p')) = [100, 200.25]"
    by (elim exE conjE)
  have h: "0 < length (masses (system ex_anchor))"
    "status (masses (system ex_anchor) ! 0) AND S_FIXED \<noteq> 0"
    by (simp_all add: ex_anchor_def new_Mass_def S_FIXED_def)
  from C10_fixed_mass_unmoved [OF a h] a m h show ?thesis
    by (simp add: ex_anchor_def new_Mass_def)
qed

subsection \<open>Force accumulation\<close>



lemma cmass_foldl:
  "foldl (\<lambda>(msum, mixix, mixiy, mivix, miviy) (i, m).
              if int i \<noteq> c \<and> free m
              then (msum + mass m, mixix + mass m * x m, mixiy + mass m * y m,
                    mivix + mass m * vx m, miviy + mass m * vy m)
              else (msum, mixix, mixiy, mivix, miviy))
       (a0, a1, a2, a3, a4) ims
   = (let M = map snd (filter (\<lambda>(i, m). int i \<noteq> c \<and> free m) ims) in
      (a0 + sum_list (map mass M), a1 + sum_list (map (\<lambda>m. mass m * x m) M),
       a2 + sum_list (map (\<lambda>m. mass m * y m) M), a3 + sum_list (map (\<lambda>m. mass m * vx m) M),
       a4 + sum_list (map (\<lambda>m. mass m * vy m) M)))"
proof (induction ims arbitrary: a0 a1 a2 a3 a4)
  case Nil
  show ?case by simp
next
  case (Cons im ims)
  obtain i m where im: "im = (i, m)" by (cases im)
  show ?case unfolding im
    by (simp add: Cons.IH Let_def add.assoc)
qed

lemma cmass_sums_eq:
  "cmass_sums mst ms =
     (let M = cmass_members mst ms in
      (sum_list (map mass M), sum_list (map (\<lambda>m. mass m * x m) M),
       sum_list (map (\<lambda>m. mass m * y m) M), sum_list (map (\<lambda>m. mass m * vx m) M),
       sum_list (map (\<lambda>m. mass m * vy m) M)))"
  unfolding cmass_sums_def cmass_members_def cmass_foldl by (simp add: Let_def)

lemma spring_loop_dead:
  "\<not> list_ex (\<lambda>s. status s AND S_ALIVE \<noteq> 0) ss \<Longrightarrow> spring_loop ss sys = Some sys"
  by (induction ss) (simp_all add: spring_accel_def)

text \<open>
  Claim C6, as amended. With the centre-of-mass force enabled and a nonzero total mass
  \<open>msum\<close> of the free masses other than the centre mass, the force accumulator
  computes one acceleration \<open>(ogx, ogy)\<close>: minus the magnitude times the offset of the
  mass-weighted mean position from the centre, plus the damping times the mass-weighted
  mean velocity, the sum divided by the total mass \<open>msum\<close> (not by the mass of the
  mass it is applied to). That same acceleration is added to every free mass other than
  the centre mass, next to gravity and drag; with no other force and no alive spring it
  is what \<^verbatim>\<open>accumulateAccel\<close> leaves in \<^verbatim>\<open>ax\<close>, \<^verbatim>\<open>ay\<close>. The acceleration of a
  mass, not the force on it, is the same for all masses.
\<close>

theorem C6_cmass_force:
  assumes "force_enabled mst FR_CMASS"
    and "sum_list (map mass (cmass_members mst ms)) \<noteq> 0"
  shows "cmass_force mst cx cy ms =
       (let M = cmass_members mst ms; msum = sum_list (map mass M);
            gval = cur_grav_val mst FR_CMASS; gmisc = cur_misc_val mst FR_CMASS;
            mixix = sum_list (map (\<lambda>m. mass m * x m) M) / msum - cx;
            mixiy = sum_list (map (\<lambda>m. mass m * y m) M) / msum - cy;
            mivix = sum_list (map (\<lambda>m. mass m * vx m) M) / msum;
            miviy = sum_list (map (\<lambda>m. mass m * vy m) M) / msum
        in (- ((gval * mixix + gmisc * mivix) / msum),
            - ((gval * mixiy + gmisc * miviy) / msum)))
     \<and> (\<forall>i g. free (ms ! i) \<and> int i \<noteq> center_id mst \<longrightarrow>
            ax (accel_body mst g (cmass_force mst cx cy ms) i (ms ! i))
              = fst g + fst (cmass_force mst cx cy ms) - cur_visc mst * vx (ms ! i)
            \<and> ay (accel_body mst g (cmass_force mst cx cy ms) i (ms ! i))
              = snd g + snd (cmass_force mst cx cy ms) - cur_visc mst * vy (ms ! i))
     \<and> (\<forall>wd ht sys sys'.
            center_of wd ht sys = Some (cx, cy, mst) \<and> masses sys = ms
            \<and> \<not> force_enabled mst FR_PTATTRACT \<and> \<not> force_enabled mst FR_WALL
            \<and> \<not> any_spring sys \<and> accumulateAccel wd ht sys = Some sys' \<longrightarrow>
            (\<forall>i < length ms. free (ms ! i) \<and> int i \<noteq> center_id mst \<longrightarrow>
               ax (masses sys' ! i)
                 = fst (gravity mst) + fst (cmass_force mst cx cy ms) - cur_visc mst * vx (ms ! i)
               \<and> ay (masses sys' ! i)
                 = snd (gravity mst) + snd (cmass_force mst cx cy ms) - cur_visc mst * vy (ms ! i)))"
proof (intro conjI allI impI)
  show "cmass_force mst cx cy ms =
       (let M = cmass_members mst ms; msum = sum_list (map mass M);
            gval = cur_grav_val mst FR_CMASS; gmisc = cur_misc_val mst FR_CMASS;
            mixix = sum_list (map (\<lambda>m. mass m * x m) M) / msum - cx;
            mixiy = sum_list (map (\<lambda>m. mass m * y m) M) / msum - cy;
            mivix = sum_list (map (\<lambda>m. mass m * vx m) M) / msum;
            miviy = sum_list (map (\<lambda>m. mass m * vy m) M) / msum
        in (- ((gval * mixix + gmisc * mivix) / msum),
            - ((gval * mixiy + gmisc * miviy) / msum)))"
    using assms by (simp add: cmass_force_def cmass_sums_eq Let_def)
next
  fix i g assume "free (ms ! i) \<and> int i \<noteq> center_id mst"
  thus "ax (accel_body mst g (cmass_force mst cx cy ms) i (ms ! i))
              = fst g + fst (cmass_force mst cx cy ms) - cur_visc mst * vx (ms ! i)"
    "ay (accel_body mst g (cmass_force mst cx cy ms) i (ms ! i))
              = snd g + snd (cmass_force mst cx cy ms) - cur_visc mst * vy (ms ! i)"
    by (simp_all add: accel_body_def)
next
  fix wd ht sys sys' i
  assume h: "center_of wd ht sys = Some (cx, cy, mst) \<and> masses sys = ms
            \<and> \<not> force_enabled mst FR_PTATTRACT \<and> \<not> force_enabled mst FR_WALL
            \<and> \<not> any_spring sys \<and> accumulateAccel wd ht sys = Some sys'"
    and i: "i < length ms" and f: "free (ms ! i) \<and> int i \<noteq> center_id mst"
  from h have "spring_loop (springs sys) t = Some t" for t
    by (intro spring_loop_dead) (simp add: any_spring_def)
  with h have "masses sys' = for_masses (accel_body mst (gravity mst) (cmass_force mst cx cy ms)) ms"
    by (auto simp: accumulateAccel_def Let_def)
  with i f show "ax (masses sys' ! i)
                 = fst (gravity mst) + fst (cmass_force mst cx cy ms) - cur_visc mst * vx (ms ! i)"
     "ay (masses sys' ! i)
                 = snd (gravity mst) + snd (cmass_force mst cx cy ms) - cur_visc mst * vy (ms ! i)"
    by (simp_all add: accel_body_def)
qed

lemmas cm_defs = ex_cmass_def State_reset_def new_Mass_def zero_Mass_def cmass_members_def
  free_def S_ALIVE_def S_FIXED_def FR_CMASS_def FR_GRAV_def FR_PTATTRACT_def FR_WALL_def
  enumerate_eq_zip

text \<open>
  Claim C6 as stated fails: for a mass of 1 and a mass of 3 the code adds the same
  acceleration \<open>-62.5\<close> to both, where division by the mass's own mass would give
  \<open>-250\<close> and \<open>-250/3\<close>; the forces on the two masses, mass times acceleration, are
  \<open>-62.5\<close> and \<open>-187.5\<close>, so the force does depend on the mass.
\<close>

theorem C6_counterexample:
  "map ax (masses (the (accumulateAccel 400 300 ex_cmass))) = [- 125 / 2, - 125 / 2]
   \<and> map (\<lambda>m. fst (cmass_accel_spec (state ex_cmass) 200 150 (masses ex_cmass) m))
         (masses ex_cmass) = [- 250, - 250 / 3]
   \<and> map (\<lambda>m. mass m * ax m) (masses (the (accumulateAccel 400 300 ex_cmass)))
       = [- 125 / 2, - 375 / 2]"
  by (simp add: cm_defs cmass_accel_spec_def accumulateAccel_def center_of_def gravity_def
      cmass_force_def cmass_sums_def for_masses_def accel_body_def Let_def)

theorem C6_witness:
  "force_enabled (state ex_cmass) FR_CMASS
   \<and> sum_list (map mass (cmass_members (state ex_cmass) (masses ex_cmass))) \<noteq> 0
   \<and> cmass_force (state ex_cmass) 200 150 (masses ex_cmass) = (- 125 / 2, 0)"
proof -
  have h: "force_enabled (state ex_cmass) FR_CMASS"
    "sum_list (map mass (cmass_members (state ex_cmass) (masses ex_cmass))) \<noteq> 0"
    by (simp_all add: cm_defs)
  note t = C6_cmass_force [OF h, of 200 150, THEN conjunct1]
  have "cmass_force (state ex_cmass) 200 150 (masses ex_cmass) = (- 125 / 2, 0)"
    unfolding t by (simp add: cm_defs Let_def)
  with h show ?thesis by simp
qed

subsection \<open>Sticking to a wall\<close>

lemma step_rel_state:
  assumes "step_rel sys sys'"
  shows "w_left (state sys') = w_left (state sys)" "w_right (state sys') = w_right (state sys)"
    "w_top (state sys') = w_top (state sys)" "w_bottom (state sys') = w_bottom (state sys)"
    "cur_stick (state sys') = cur_stick (state sys)" "collide (state sys') = collide (state sys)"
proof -
  from assms have e: "(state sys')\<lparr>center_id := 0, cur_dt := 0\<rparr> = (state sys)\<lparr>center_id := 0, cur_dt := 0\<rparr>"
    by (simp add: step_rel_def)
  have "f (state sys') = f (state sys)"
    if "\<And>st. f (st\<lparr>center_id := 0, cur_dt := 0\<rparr>) = f st" for f :: "State \<Rightarrow> bool"
    using arg_cong [OF e, of f] that by simp
  note b = this
  have "f (state sys') = f (state sys)"
    if "\<And>st. f (st\<lparr>center_id := 0, cur_dt := 0\<rparr>) = f st" for f :: "State \<Rightarrow> real"
    using arg_cong [OF e, of f] that by simp
  note r = this
  show "w_left (state sys') = w_left (state sys)" by (rule b) simp
  show "w_right (state sys') = w_right (state sys)" by (rule b) simp
  show "w_top (state sys') = w_top (state sys)" by (rule b) simp
  show "w_bottom (state sys') = w_bottom (state sys)" by (rule b) simp
  show "collide (state sys') = collide (state sys)" by (rule b) simp
  show "cur_stick (state sys') = cur_stick (state sys)" by (rule r) simp
qed

lemma advance_system_parts:
  assumes "advance_system wd ht sys = Some sys'"
    and "integrate wd ht (on_free save_old sys) = Some sys1"
  shows "masses sys' = masses (collide_all (sys1\<lparr>masses :=
           map (wall_mass wd ht (state sys1)
                  (STICK_MAG * cur_dt (state sys1) * cur_stick (state sys1))) (masses sys1)\<rparr>))"
  using assms by (simp add: advance_system_def wall_loop_eq)

lemma saved_then_kept:
  assumes "step_rel (on_free save_old sys) sys1" "j < length (masses sys)" "free (masses sys ! j)"
  shows "free (masses sys1 ! j)" "mass (masses sys1 ! j) = mass (masses sys ! j)"
    "radius (masses sys1 ! j) = radius (masses sys ! j)"
    "old_x (masses sys1 ! j) = x (masses sys ! j)" "old_y (masses sys1 ! j) = y (masses sys ! j)"
    "old_vx (masses sys1 ! j) = vx (masses sys ! j)" "old_vy (masses sys1 ! j) = vy (masses sys ! j)"
    "j < length (masses sys1)"
proof -
  from assms(1) have l: "list_all2 kept (masses (on_free save_old sys)) (masses sys1)"
    by (simp add: step_rel_def)
  have n: "masses (on_free save_old sys) ! j = save_old (masses sys ! j)"
    using assms(2,3) by (simp add: on_free_def)
  from list_all2_nthD [OF l, of j] assms(2) n have k: "kept (save_old (masses sys ! j)) (masses sys1 ! j)"
    by simp
  have fs: "free (save_old (masses sys ! j))" using assms(3) by (simp add: free_def save_old_def)
  from free_kept [OF k] fs show "free (masses sys1 ! j)" by simp
  from k show "mass (masses sys1 ! j) = mass (masses sys ! j)"
    "radius (masses sys1 ! j) = radius (masses sys ! j)"
    "old_x (masses sys1 ! j) = x (masses sys ! j)" "old_y (masses sys1 ! j) = y (masses sys ! j)"
    "old_vx (masses sys1 ! j) = vx (masses sys ! j)" "old_vy (masses sys1 ! j) = vy (masses sys ! j)"
    by (simp_all add: kept_def save_old_def)
  from list_all2_lengthD [OF l] assms(2) show "j < length (masses sys1)" by simp
qed

lemma map_update_same: "(map f ms)[i := f (ms ! i)] = map f ms"
  by (cases "i < length ms") (simp_all add: list_update_same_conv list_update_beyond)

lemma impact_place [simp]:
  "x (impact m other e a b c d dx dy dxq dyq sq) = x m"
  "y (impact m other e a b c d dx dy dxq dyq sq) = y m"
  by (simp_all add: impact_def Let_def)

lemma collide_pair_place:
  "map x (collide_pair r cx cy i j ms) = map x ms"
  "map y (collide_pair r cx cy i j ms) = map y ms"
  unfolding collide_pair_def Let_def
  by (simp_all add: map_update map_update_same)

lemma fold_map_inv:
  assumes "\<And>k ns. map g (f k ns) = map g ns"
  shows "map g (fold f ks' ms) = map g ms"
  by (induction ks' arbitrary: ms) (simp_all add: assms)

lemma collide_from_place:
  "map x (collide_from i ms) = map x ms" "map y (collide_from i ms) = map y ms"
  by (simp_all add: collide_from_def Let_def fold_map_inv collide_pair_place)

lemma collide_all_place:
  "map x (masses (collide_all sys)) = map x (masses sys)"
  "map y (masses (collide_all sys)) = map y (masses sys)"
  by (simp_all add: collide_all_def fold_map_inv collide_from_place)

lemma collide_all_place_nth:
  assumes "j < length (masses sys)"
  shows "x (masses (collide_all sys) ! j) = x (masses sys ! j)"
    "y (masses (collide_all sys) ! j) = y (masses sys ! j)"
proof -
  have l: "length (masses (collide_all sys)) = length (masses sys)"
    using arg_cong [OF collide_all_place(1) [of sys], of length] by simp
  have "map x (masses (collide_all sys)) ! j = map x (masses sys) ! j"
    by (simp only: collide_all_place)
  thus "x (masses (collide_all sys) ! j) = x (masses sys ! j)" using assms l by simp
  have "map y (masses (collide_all sys)) ! j = map y (masses sys) ! j"
    by (simp only: collide_all_place)
  thus "y (masses (collide_all sys) ! j) = y (masses sys ! j)" using assms l by simp
qed

text \<open>
  Claim C4, as amended. Let a free mass have had zero velocity before the step. If the
  edge of the mass was within 0.5 of an enabled left or right wall before the step and
  the magnitude of its new \<open>vx\<close> is below \<open>stick_mag / mass\<close>, or if it was not within
  0.5 of an enabled left or right wall but was within 0.5 of an enabled bottom or top
  wall and the magnitude of its new \<open>vy\<close> is below \<open>stick_mag / mass\<close>, then the wall
  loop leaves the mass at its position before the step with zero velocity, and the mass
  is still at that position when \<^verbatim>\<open>advance\<close> is done. Here
  \<open>stick_mag = STICK_MAG * cur_dt * cur_stick\<close> with \<open>cur_dt\<close> as the integrator
  left it. With stickiness 0 no mass is pinned: the stick test fails and the mass goes
  through the bounce code. The test against the bottom and top walls is only made when
  the mass is not near an enabled left or right wall. What \<^verbatim>\<open>advance\<close> leaves is the
  result of the collision pass on the output of the wall loop, which is that output
  itself when collisions are off; the collision pass writes velocities only.
\<close>

theorem C4_wall_stick:
  assumes "integrate wd ht (on_free save_old sys) = Some sys1"
    and "wall_loop wd ht (STICK_MAG * cur_dt (state sys1) * cur_stick (state sys1)) sys1
           = Some sys2"
    and "j < length (masses sys)" and "free (masses sys ! j)"
  shows "(let m = masses sys ! j; m1 = masses sys1 ! j; mw = masses sys2 ! j;
              m' = masses (collide_all sys2) ! j;
              rad = screenRadius (radius m);
              thr = STICK_MAG * cur_dt (state sys1) * cur_stick (state sys) / mass m in
          (vx m = 0 \<and> vy m = 0
             \<and> ((near_side_wall wd (state sys) rad (x m) \<and> \<bar>vx m1\<bar> < thr)
                  \<or> (\<not> near_side_wall wd (state sys) rad (x m)
                      \<and> near_end_wall ht (state sys) rad (y m) \<and> \<bar>vy m1\<bar> < thr))
            \<longrightarrow> x mw = x m \<and> y mw = y m \<and> vx mw = 0 \<and> vy mw = 0
                \<and> x m' = x m \<and> y m' = y m)
          \<and> (cur_stick (state sys) = 0
            \<longrightarrow> wall_stick wd ht (state sys1)
                  (STICK_MAG * cur_dt (state sys1) * cur_stick (state sys1)) m1 = None
                \<and> mw = bounce_y ht (state sys1) (bounce_x wd (state sys1) m1))
          \<and> advance_system wd ht sys = Some (collide_all sys2)
          \<and> (\<not> collide (state sys) \<longrightarrow> advance_system wd ht sys = Some sys2))"
proof -
  let ?m = "masses sys ! j" and ?m1 = "masses sys1 ! j" and ?mw = "masses sys2 ! j"
  let ?m' = "masses (collide_all sys2) ! j"
  let ?sm = "STICK_MAG * cur_dt (state sys1) * cur_stick (state sys1)"
  let ?rad = "screenRadius (radius ?m)"
  have sr: "step_rel (on_free save_old sys) sys1"
    using assms(1) by (rule integrate_step_rel)
  note st = step_rel_state [OF sr, simplified]
  note k = saved_then_kept [OF sr assms(3,4)]
  have s2: "sys2 = sys1\<lparr>masses := map (wall_mass wd ht (state sys1) ?sm) (masses sys1)\<rparr>"
    using assms(2) by (simp add: wall_loop_eq)
  hence mw: "?mw = wall_mass wd ht (state sys1) ?sm ?m1"
    using k(8) by simp
  have l2: "j < length (masses sys2)" using k(8) by (simp add: s2)
  have adv: "advance_system wd ht sys = Some (collide_all sys2)"
    using assms(1,2) by (simp add: advance_system_def)
  have off: "advance_system wd ht sys = Some sys2" if "\<not> collide (state sys)"
  proof -
    from that have "\<not> collide (state sys2)" by (simp add: s2 st)
    thus ?thesis by (simp add: adv collide_all_def)
  qed
  have ns: "near_side_wall wd (state sys1) rad px = near_side_wall wd (state sys) rad px" for rad px
    by (simp add: near_side_wall_def st)
  have ne: "near_end_wall ht (state sys1) rad py = near_end_wall ht (state sys) rad py" for rad py
    by (simp add: near_end_wall_def st)
  have 1: "x ?mw = x ?m \<and> y ?mw = y ?m \<and> vx ?mw = 0 \<and> vy ?mw = 0
           \<and> x ?m' = x ?m \<and> y ?m' = y ?m"
    if "vx ?m = 0 \<and> vy ?m = 0
        \<and> ((near_side_wall wd (state sys) ?rad (x ?m)
               \<and> \<bar>vx ?m1\<bar> < STICK_MAG * cur_dt (state sys1) * cur_stick (state sys) / mass ?m)
           \<or> (\<not> near_side_wall wd (state sys) ?rad (x ?m)
               \<and> near_end_wall ht (state sys) ?rad (y ?m)
               \<and> \<bar>vy ?m1\<bar> < STICK_MAG * cur_dt (state sys1) * cur_stick (state sys) / mass ?m))"
  proof -
    from that have "wall_stick wd ht (state sys1) ?sm ?m1 = Some (pinned ?m1)"
      by (auto simp: wall_stick_def Let_def k ns ne st)
    hence "?mw = pinned ?m1" using k(1) by (simp add: mw wall_mass_def)
    hence "x ?mw = x ?m \<and> y ?mw = y ?m \<and> vx ?mw = 0 \<and> vy ?mw = 0"
      by (simp add: pinned_def k)
    thus ?thesis by (simp add: collide_all_place_nth [OF l2])
  qed
  have 2: "wall_stick wd ht (state sys1) ?sm ?m1 = None
           \<and> ?mw = bounce_y ht (state sys1) (bounce_x wd (state sys1) ?m1)"
    if "cur_stick (state sys) = 0"
  proof -
    from that have "wall_stick wd ht (state sys1) ?sm ?m1 = None"
      by (simp add: wall_stick_def Let_def st)
    thus ?thesis using k(1) by (simp add: mw wall_mass_def)
  qed
  from 1 2 adv off show ?thesis unfolding Let_def by blast
qed

lemma ex_floor_eval:
  "\<exists>sys1 sys2. integrate 400 300 (on_free save_old (system ex_floor)) = Some sys1
      \<and> wall_loop 400 300 (STICK_MAG * cur_dt (state sys1) * cur_stick (state sys1)) sys1
          = Some sys2
      \<and> vy (masses sys1 ! 0) = - 0.25 \<and> cur_dt (state sys1) = 0.025
      \<and> y (masses sys1 ! 0) = 15 - 0.003125"
  by (simp add: ex_floor_def adv_defs rk_defs ev_defs COORD_DX_def COORD_DY_def)

lemma ex_slippery_eval:
  "\<exists>sys1 sys2. integrate 400 300 (on_free save_old (system ex_slippery)) = Some sys1
      \<and> wall_loop 400 300 (STICK_MAG * cur_dt (state sys1) * cur_stick (state sys1)) sys1
          = Some sys2
      \<and> vy (masses sys1 ! 0) = - 0.25 \<and> vy (masses sys2 ! 0) = 0.25"
  by (simp add: ex_slippery_def ex_floor_def adv_defs rk_defs ev_defs COORD_DX_def COORD_DY_def)

text \<open>
  Claim C4 as stated fails in a corner: the mass was at rest within 0.5 of the enabled
  bottom wall and its new velocity normal to that wall is 0, below the threshold 0.025,
  but it is also near the left wall, where its new \<open>vx\<close> is not below the threshold;
  the code does not look at the bottom wall then, and the mass moves on with the
  integrator's result.
\<close>

theorem C4_counterexample:
  "free (masses (system ex_corner) ! 0)
   \<and> vx (masses (system ex_corner) ! 0) = 0 \<and> vy (masses (system ex_corner) ! 0) = 0
   \<and> near_end_wall 300 (state (system ex_corner))
        (screenRadius (radius (masses (system ex_corner) ! 0))) (y (masses (system ex_corner) ! 0))
   \<and> \<not> collide (state (system ex_corner))
   \<and> vy (masses (the (integrate 400 300 (on_free save_old (system ex_corner)))) ! 0) = 0
   \<and> STICK_MAG * cur_dt (state (the (integrate 400 300 (on_free save_old (system ex_corner)))))
        * cur_stick (state (system ex_corner)) / mass (masses (system ex_corner) ! 0) = 0.025
   \<and> x (masses (system ex_corner) ! 0) = 15
   \<and> x (masses (the (advance_system 400 300 (system ex_corner))) ! 0) = 313493 / 20480
   \<and> vx (masses (the (advance_system 400 300 (system ex_corner))) ! 0) = 374363 / 15360"
  by (simp add: ex_corner_def adv_defs rk_defs ev_defs cm_defs center_of_def cmass_force_def
      cmass_sums_def getMass_def massCount_def)

theorem C4_witness:
  "(\<exists>sys1 sys2. integrate 400 300 (on_free save_old (system ex_floor)) = Some sys1
      \<and> wall_loop 400 300 (STICK_MAG * cur_dt (state sys1) * cur_stick (state sys1)) sys1
          = Some sys2
      \<and> 0 < length (masses (system ex_floor)) \<and> free (masses (system ex_floor) ! 0)
      \<and> y (masses sys1 ! 0) = 15 - 0.003125 \<and> vy (masses sys1 ! 0) = - 0.25
      \<and> x (masses sys2 ! 0) = 200 \<and> y (masses sys2 ! 0) = 15
      \<and> vx (masses sys2 ! 0) = 0 \<and> vy (masses sys2 ! 0) = 0
      \<and> advance_system 400 300 (system ex_floor) = Some sys2)
   \<and> (\<exists>sys1 sys2. integrate 400 300 (on_free save_old (system ex_slippery)) = Some sys1
      \<and> wall_loop 400 300 (STICK_MAG * cur_dt (state sys1) * cur_stick (state sys1)) sys1
          = Some sys2
      \<and> 0 < length (masses (system ex_slippery)) \<and> free (masses (system ex_slippery) ! 0)
      \<and> cur_stick (state (system ex_slippery)) = 0
      \<and> wall_stick 400 300 (state sys1)
            (STICK_MAG * cur_dt (state sys1) * cur_stick (state sys1)) (masses sys1 ! 0) = None
      \<and> masses sys2 ! 0 = bounce_y 300 (state sys1) (bounce_x 400 (state sys1) (masses sys1 ! 0))
      \<and> vy (masses sys1 ! 0) = - 0.25 \<and> vy (masses sys2 ! 0) = 0.25)"
proof -
  from ex_floor_eval obtain sys1 sys2 where
    i: "integrate 400 300 (on_free save_old (system ex_floor)) = Some sys1"
    and w: "wall_loop 400 300 (STICK_MAG * cur_dt (state sys1) * cur_stick (state sys1)) sys1
          = Some sys2"
    and v: "vy (masses sys1 ! 0) = - 0.25" and d: "cur_dt (state sys1) = 0.025"
    and p: "y (masses sys1 ! 0) = 15 - 0.003125"
    by (elim exE conjE)
  have h: "0 < length (masses (system ex_floor))" "free (masses (system ex_floor) ! 0)"
    by (simp_all add: ex_floor_def new_Mass_def State_reset_def free_def S_ALIVE_def S_FIXED_def)
  have c: "\<not> collide (state (system ex_floor))"
    by (simp add: ex_floor_def State_reset_def)
  have pre: "vx (masses (system ex_floor) ! 0) = 0 \<and> vy (masses (system ex_floor) ! 0) = 0
      \<and> ((near_side_wall 400 (state (system ex_floor))
              (screenRadius (radius (masses (system ex_floor) ! 0)))
              (x (masses (system ex_floor) ! 0))
            \<and> \<bar>vx (masses sys1 ! 0)\<bar>
                < STICK_MAG * cur_dt (state sys1) * cur_stick (state (system ex_floor))
                  / mass (masses (system ex_floor) ! 0))
         \<or> (\<not> near_side_wall 400 (state (system ex_floor))
                (screenRadius (radius (masses (system ex_floor) ! 0)))
                (x (masses (system ex_floor) ! 0))
            \<and> near_end_wall 300 (state (system ex_floor))
                (screenRadius (radius (masses (system ex_floor) ! 0)))
                (y (masses (system ex_floor) ! 0))
            \<and> \<bar>vy (masses sys1 ! 0)\<bar>
                < STICK_MAG * cur_dt (state sys1) * cur_stick (state (system ex_floor))
                  / mass (masses (system ex_floor) ! 0)))"
    unfolding v d
    by (simp add: ex_floor_def new_Mass_def zero_Mass_def State_reset_def
        near_side_wall_def near_end_wall_def screenRadius_def sphereRadius_def sphereSize_def
        cdiv_def STICK_MAG_def)
  note t = C4_wall_stick [OF i w h, unfolded Let_def]
  note t1 = t [THEN conjunct1, THEN mp, OF pre]
  note t4 = t [THEN conjunct2, THEN conjunct2, THEN conjunct2, THEN mp, OF c]
  have e: "x (masses (system ex_floor) ! 0) = 200" "y (masses (system ex_floor) ! 0) = 15"
    by (simp_all add: ex_floor_def new_Mass_def)
  from t1 have "x (masses sys2 ! 0) = 200 \<and> y (masses sys2 ! 0) = 15
      \<and> vx (masses sys2 ! 0) = 0 \<and> vy (masses sys2 ! 0) = 0"
    unfolding e by blast
  with i w h v p t4 have first:
    "\<exists>sys1 sys2. integrate 400 300 (on_free save_old (system ex_floor)) = Some sys1
      \<and> wall_loop 400 300 (STICK_MAG * cur_dt (state sys1) * cur_stick (state sys1)) sys1
          = Some sys2
      \<and> 0 < length (masses (system ex_floor)) \<and> free (masses (system ex_floor) ! 0)
      \<and> y (masses sys1 ! 0) = 15 - 0.003125 \<and> vy (masses sys1 ! 0) = - 0.25
      \<and> x (masses sys2 ! 0) = 200 \<and> y (masses sys2 ! 0) = 15
      \<and> vx (masses sys2 ! 0) = 0 \<and> vy (masses sys2 ! 0) = 0
      \<and> advance_system 400 300 (system ex_floor) = Some sys2"
    by blast
  from ex_slippery_eval obtain s1 s2 where
    i': "integrate 400 300 (on_free save_old (system ex_slippery)) = Some s1"
    and w': "wall_loop 400 300 (STICK_MAG * cur_dt (state s1) * cur_stick (state s1)) s1
          = Some s2"
    and v': "vy (masses s1 ! 0) = - 0.25" "vy (masses s2 ! 0) = 0.25"
    by (elim exE conjE)
  have h': "0 < length (masses (system ex_slippery))" "free (masses (system ex_slippery) ! 0)"
    by (simp_all add: ex_slippery_def ex_floor_def new_Mass_def State_reset_def free_def
        S_ALIVE_def S_FIXED_def)
  have z: "cur_stick (state (system ex_slippery)) = 0"
    by (simp add: ex_slippery_def)
  note t2 = C4_wall_stick [OF i' w' h', unfolded Let_def, THEN conjunct2, THEN conjunct1,
      THEN mp, OF z]
  from i' w' h' z t2 v' have second:
    "\<exists>sys1 sys2. integrate 400 300 (on_free save_old (system ex_slippery)) = Some sys1
      \<and> wall_loop 400 300 (STICK_MAG * cur_dt (state sys1) * cur_stick (state sys1)) sys1
          = Some sys2
      \<and> 0 < length (masses (system ex_slippery)) \<and> free (masses (system ex_slippery) ! 0)
      \<and> cur_stick (state (system ex_slippery)) = 0
      \<and> wall_stick 400 300 (state sys1)
            (STICK_MAG * cur_dt (state sys1) * cur_stick (state sys1)) (masses sys1 ! 0) = None
      \<and> masses sys2 ! 0 = bounce_y 300 (state sys1) (bounce_x 400 (state sys1) (masses sys1 ! 0))
      \<and> vy (masses sys1 ! 0) = - 0.25 \<and> vy (masses sys2 ! 0) = 0.25"
    by blast
  from first second show ?thesis by (rule conjI)
qed

subsection \<open>Duplicating the selection\<close>

lemma dup_masses_rest:
  assumes "\<forall>j. i \<le> j \<and> j < length (masses sys) \<longrightarrow> \<not> isSelected (masses sys ! j)"
  shows "dup_masses junk i sys mf mt = (sys, mf, mt)"
  using assms
proof (induction "length (masses sys) - i" arbitrary: i)
  case 0
  then show ?case by (subst dup_masses.simps) (simp add: massCount_def)
next
  case (Suc d)
  from Suc.hyps(2) have i: "i < length (masses sys)" by simp
  with Suc.prems have u: "\<not> isSelected (masses sys ! i)" by simp
  have "dup_masses junk (Suc i) sys mf mt = (sys, mf, mt)"
    using Suc.hyps(2) Suc.prems by (intro Suc.hyps(1)) simp_all
  with i u show ?case by (subst dup_masses.simps) (simp add: massCount_def)
qed

lemma dup_masses_eq:
  assumes "i \<le> n" "n \<le> length (masses sys)"
    and "\<forall>j. n \<le> j \<and> j < length (masses sys) \<longrightarrow> \<not> isSelected (masses sys ! j)"
  shows "dup_masses junk i sys mf mt =
     (sys\<lparr>masses := masses sys
          @ map (\<lambda>j. mass_copy (masses sys ! j)) [j\<leftarrow>[i..<n]. isSelected (masses sys ! j)]\<rparr>,
      mf @ map int [j\<leftarrow>[i..<n]. isSelected (masses sys ! j)],
      mt @ map int [length (masses sys)..<
                    length (masses sys) + length [j\<leftarrow>[i..<n]. isSelected (masses sys ! j)]])"
  using assms
proof (induction "n - i" arbitrary: i sys mf mt)
  case 0
  hence "i = n" by simp
  with 0 show ?case by (simp add: dup_masses_rest)
next
  case (Suc d)
  from Suc.hyps(2) have i: "i < n" by simp
  with Suc.prems have il: "i < length (masses sys)" by simp
  have up: "[i..<n] = i # [Suc i..<n]" using i by (simp add: upt_conv_Cons)
  show ?case
  proof (cases "isSelected (masses sys ! i)")
    case False
    have "dup_masses junk i sys mf mt = dup_masses junk (Suc i) sys mf mt"
      using il False by (subst dup_masses.simps) (simp add: massCount_def)
    also have "\<dots> =
     (sys\<lparr>masses := masses sys
          @ map (\<lambda>j. mass_copy (masses sys ! j)) [j\<leftarrow>[Suc i..<n]. isSelected (masses sys ! j)]\<rparr>,
      mf @ map int [j\<leftarrow>[Suc i..<n]. isSelected (masses sys ! j)],
      mt @ map int [length (masses sys)..<
                    length (masses sys) + length [j\<leftarrow>[Suc i..<n]. isSelected (masses sys ! j)]])"
      using Suc.hyps(2) Suc.prems i by (intro Suc.hyps(1)) simp_all
    finally show ?thesis using False by (simp add: up)
  next
    case True
    let ?c = "mass_copy (masses sys ! i)"
    let ?sys' = "sys\<lparr>masses := masses sys @ [?c]\<rparr>"
    let ?sel = "[j\<leftarrow>[Suc i..<n]. isSelected (masses sys ! j)]"
    let ?L = "length (masses sys)"
    have same: "(masses sys @ [?c]) ! j = masses sys ! j" if "j < n" for j
      using that Suc.prems(2) by (simp add: nth_append)
    have fl: "[j\<leftarrow>[Suc i..<n]. isSelected ((masses sys @ [?c]) ! j)] = ?sel"
      by (rule filter_cong) (simp_all add: same)
    have mp: "map (\<lambda>j. mass_copy ((masses sys @ [?c]) ! j)) ?sel
            = map (\<lambda>j. mass_copy (masses sys ! j)) ?sel"
      by (rule map_cong) (simp_all add: same)
    have un: "\<forall>j. n \<le> j \<and> j < length (masses ?sys') \<longrightarrow> \<not> isSelected (masses ?sys' ! j)"
      using Suc.prems(3) by (auto simp: nth_append not_selected_mass_copy)
    have fi: "[j\<leftarrow>[i..<n]. isSelected (masses sys ! j)] = i # ?sel"
      using True by (simp add: up)
    have ul: "[?L..<?L + length (i # ?sel)] = ?L # [Suc ?L..<Suc ?L + length ?sel]"
    proof -
      have a: "[?L..<?L + length (i # ?sel)] = ?L # [Suc ?L..<?L + length (i # ?sel)]"
        by (rule upt_conv_Cons) simp
      have e: "?L + length (i # ?sel) = Suc ?L + length ?sel" by simp
      show ?thesis using a unfolding e .
    qed
    have "dup_masses junk i sys mf mt
        = dup_masses junk (Suc i) ?sys' (mf @ [int i]) (mt @ [massCount sys])"
      using il True by (subst dup_masses.simps) (simp add: massCount_def dup_mass_eq)
    also have "\<dots> =
     (?sys'\<lparr>masses := masses ?sys'
          @ map (\<lambda>j. mass_copy (masses ?sys' ! j)) [j\<leftarrow>[Suc i..<n]. isSelected (masses ?sys' ! j)]\<rparr>,
      (mf @ [int i]) @ map int [j\<leftarrow>[Suc i..<n]. isSelected (masses ?sys' ! j)],
      (mt @ [massCount sys]) @ map int [length (masses ?sys')..<
          length (masses ?sys') + length [j\<leftarrow>[Suc i..<n]. isSelected (masses ?sys' ! j)]])"
      using Suc.hyps(2) Suc.prems(2) i un by (intro Suc.hyps(1)) simp_all
    also have "\<dots> =
     (sys\<lparr>masses := masses sys @ map (\<lambda>j. mass_copy (masses sys ! j)) (i # ?sel)\<rparr>,
      mf @ map int (i # ?sel),
      mt @ map int (?L # [Suc ?L..<Suc ?L + length ?sel]))"
      by (simp add: fl mp massCount_def)
    finally show ?thesis unfolding fi ul .
  qed
qed

lemma for_index_skip:
  assumes "\<And>k. k \<in> set xs \<Longrightarrow> f k sys = Some sys"
  shows "for_index f xs sys = Some sys"
  using assms by (induction xs) simp_all

lemma for_index_append:
  "for_index f (xs @ ys) sys = Option.bind (for_index f xs sys) (for_index f ys)"
proof (induction xs arbitrary: sys)
  case Nil
  show ?case by simp
next
  case (Cons a xs)
  show ?case by (cases "f a sys") (simp_all add: Cons.IH)
qed

lemma filter_upt_singleton:
  assumes "[k\<leftarrow>[0..<n]. P k] = xs"
  shows "k \<in> set xs \<longleftrightarrow> k < n \<and> P k"
  using arg_cong [OF assms, of set] by auto

lemma parents_mass_copy [simp]: "parents (mass_copy m) = []"
  by (simp add: mass_copy_def)

lemma nat_int_Suc [simp]: "nat (int n + 1) = Suc n"
  by simp

lemma dup_spring_unselected:
  "\<not> isSelected (springs sys ! k) \<Longrightarrow> dup_spring mf mt k sys = Some sys"
  by (simp add: dup_spring_def)

lemma dup_spring_pair:
  assumes "a < length (masses sys)" "b < length (masses sys)" "a \<noteq> b"
    and "c < length (springs sys)" "isSelected (springs sys ! c)"
    and "(m1 (springs sys ! c) = int a \<and> m2 (springs sys ! c) = int b)
         \<or> (m1 (springs sys ! c) = int b \<and> m2 (springs sys ! c) = int a)"
  shows "dup_spring [int a, int b] [int (length (masses sys)), int (length (masses sys)) + 1] c
           (sys\<lparr>masses := masses sys @ [mass_copy (masses sys ! a), mass_copy (masses sys ! b)]\<rparr>)
       = Some (sys\<lparr>masses := masses sys
                   @ [(mass_copy (masses sys ! a))\<lparr>parents := [int (length (springs sys))]\<rparr>,
                      (mass_copy (masses sys ! b))\<lparr>parents := [int (length (springs sys))]\<rparr>],
                 springs := springs sys
                   @ [(setSelected False (springs sys ! c))
                        \<lparr>m1 := (if m1 (springs sys ! c) = int a then int (length (masses sys))
                                 else int (length (masses sys)) + 1),
                         m2 := (if m2 (springs sys ! c) = int a then int (length (masses sys))
                                 else int (length (masses sys)) + 1)\<rparr>]\<rparr>)"
  using assms
  by (auto simp: dup_spring_def createSpring_def putSpring_def springCount_def massCount_def
      addMassParent_def getMass_def putMass_def nth_append Let_def setSelected_def
      list_update_append)

lemma remap_eq:
  assumes "w < length (springs sys)"
    and "\<forall>(f, t) \<in> set zs. 0 \<le> t \<and> t < massCount sys"
  shows "\<exists>sys'. remap (int w) zs d1 d2 sys
            = Some (sys', d1 \<or> m1 (springs sys ! w) \<in> fst ` set zs,
                          d2 \<or> m2 (springs sys ! w) \<in> fst ` set zs)
          \<and> springs sys' = (springs sys)[w := (springs sys ! w)
                \<lparr>m1 := (if d1 then m1 (springs sys ! w) else remapped zs (m1 (springs sys ! w))),
                 m2 := (if d2 then m2 (springs sys ! w) else remapped zs (m2 (springs sys ! w)))\<rparr>]
          \<and> length (masses sys') = length (masses sys)
          \<and> state sys' = state sys \<and> fakeMass sys' = fakeMass sys
          \<and> fakeSpring sys' = fakeSpring sys"
  using assms
proof (induction zs arbitrary: sys d1 d2)
  case Nil
  show ?case by (simp add: remapped_def list_update_same_conv)
next
  case (Cons z zs)
  obtain f t where z: "z = (f, t)" by (cases z)
  let ?s = "springs sys ! w"
  from Cons.prems(2) z have t: "0 \<le> t" "t < massCount sys" by simp_all
  show ?case
  proof (cases "d1 \<and> d2")
    case True
    then show ?thesis by (simp add: z list_update_same_conv)
  next
    case False
    define h1 where "h1 = (\<not> d1 \<and> m1 ?s = f)"
    define h2 where "h2 = (\<not> d2 \<and> m2 ?s = f)"
    define s1 where "s1 = (if h1 then ?s\<lparr>m1 := t\<rparr> else ?s)"
    define s2 where "s2 = (if h2 then s1\<lparr>m2 := t\<rparr> else s1)"
    define ms2 where "ms2 =
       (let a = (if h1 then (masses sys)[nat t := (masses sys ! nat t)
                              \<lparr>parents := parents (masses sys ! nat t) @ [int w]\<rparr>]
                 else masses sys)
        in if h2 then a[nat t := (a ! nat t)\<lparr>parents := parents (a ! nat t) @ [int w]\<rparr>] else a)"
    define sys2 where "sys2 = sys\<lparr>springs := (springs sys)[w := s2], masses := ms2\<rparr>"
    have step: "remap (int w) (z # zs) d1 d2 sys = remap (int w) zs (d1 \<or> h1) (d2 \<or> h2) sys2"
      using False t Cons.prems(1)
      by (auto simp: z h1_def h2_def s1_def s2_def ms2_def sys2_def Let_def addMassParent_def
          getMass_def putMass_def putSpring_def massCount_def list_update_same_conv)
    have w2: "w < length (springs sys2)" using Cons.prems(1) by (simp add: sys2_def)
    have l2: "length (masses sys2) = length (masses sys)"
      by (simp add: sys2_def ms2_def Let_def)
    have r2: "\<forall>(f, t) \<in> set zs. 0 \<le> t \<and> t < massCount sys2"
      using Cons.prems(2) l2 by (simp add: massCount_def)
    have n2: "springs sys2 ! w = s2" using Cons.prems(1) by (simp add: sys2_def)
    from Cons.IH [OF w2 r2, of "d1 \<or> h1" "d2 \<or> h2"] obtain sys' where
      r: "remap (int w) zs (d1 \<or> h1) (d2 \<or> h2) sys2
            = Some (sys', (d1 \<or> h1) \<or> m1 s2 \<in> fst ` set zs, (d2 \<or> h2) \<or> m2 s2 \<in> fst ` set zs)"
      and sp: "springs sys' = (springs sys2)[w := s2
                \<lparr>m1 := (if d1 \<or> h1 then m1 s2 else remapped zs (m1 s2)),
                 m2 := (if d2 \<or> h2 then m2 s2 else remapped zs (m2 s2))\<rparr>]"
      and rest: "length (masses sys') = length (masses sys2)" "state sys' = state sys2"
        "fakeMass sys' = fakeMass sys2" "fakeSpring sys' = fakeSpring sys2"
      unfolding n2 by blast
    have f1: "((d1 \<or> h1) \<or> m1 s2 \<in> fst ` set zs) = (d1 \<or> m1 ?s \<in> fst ` set (z # zs))"
      by (auto simp: z h1_def h2_def s1_def s2_def)
    have f2: "((d2 \<or> h2) \<or> m2 s2 \<in> fst ` set zs) = (d2 \<or> m2 ?s \<in> fst ` set (z # zs))"
      by (auto simp: z h1_def h2_def s1_def s2_def)
    have e: "s2\<lparr>m1 := (if d1 \<or> h1 then m1 s2 else remapped zs (m1 s2)),
                 m2 := (if d2 \<or> h2 then m2 s2 else remapped zs (m2 s2))\<rparr>
           = ?s\<lparr>m1 := (if d1 then m1 ?s else remapped (z # zs) (m1 ?s)),
                 m2 := (if d2 then m2 ?s else remapped (z # zs) (m2 ?s))\<rparr>"
      by (auto simp: z h1_def h2_def s1_def s2_def remapped_def split: option.splits)
    show ?thesis
      unfolding step r f1 f2
      using sp rest l2 by (simp add: e) (simp add: sys2_def)
  qed
qed

lemma deleteMassParent_shape:
  assumes "0 \<le> e" "e < massCount sys"
  shows "\<exists>sys'. deleteMassParent e p sys = Some sys' \<and> springs sys' = springs sys
           \<and> length (masses sys') = length (masses sys) \<and> state sys' = state sys
           \<and> fakeMass sys' = fakeMass sys \<and> fakeSpring sys' = fakeSpring sys"
  using assms by (simp add: deleteMassParent_def getMass_def putMass_def)

lemma deleteSpring_last:
  assumes "isAlive c \<Longrightarrow> 0 \<le> m1 c \<and> m1 c < massCount sys \<and> 0 \<le> m2 c \<and> m2 c < massCount sys"
  shows "\<exists>sys'. deleteSpring (int (length xs)) (sys\<lparr>springs := xs @ [c]\<rparr>) = Some sys'
           \<and> springs sys' = xs @ [if isAlive c then c\<lparr>status := 0\<rparr> else c]
           \<and> length (masses sys') = length (masses sys) \<and> state sys' = state sys
           \<and> fakeMass sys' = fakeMass sys \<and> fakeSpring sys' = fakeSpring sys"
proof (cases "isAlive c")
  case False
  then show ?thesis
    by (simp add: deleteSpring_def getSpring_def springCount_def)
next
  case True
  let ?sys1 = "sys\<lparr>springs := xs @ [c\<lparr>status := 0\<rparr>]\<rparr>"
  from assms True have rng: "0 \<le> m1 c" "m1 c < massCount sys" "0 \<le> m2 c" "m2 c < massCount sys"
    by simp_all
  from deleteMassParent_shape [of "m1 c" ?sys1 "int (length xs)"] rng
  obtain sys2 where 1: "deleteMassParent (m1 c) (int (length xs)) ?sys1 = Some sys2"
    and s2: "springs sys2 = xs @ [c\<lparr>status := 0\<rparr>]" "length (masses sys2) = length (masses sys)"
      "state sys2 = state sys" "fakeMass sys2 = fakeMass sys" "fakeSpring sys2 = fakeSpring sys"
    by (auto simp: massCount_def)
  from deleteMassParent_shape [of "m2 c" sys2 "int (length xs)"] rng s2
  obtain sys3 where 2: "deleteMassParent (m2 c) (int (length xs)) sys2 = Some sys3"
    and s3: "springs sys3 = xs @ [c\<lparr>status := 0\<rparr>]" "length (masses sys3) = length (masses sys)"
      "state sys3 = state sys" "fakeMass sys3 = fakeMass sys" "fakeSpring sys3 = fakeSpring sys"
    by (auto simp: massCount_def)
  have "deleteSpring (int (length xs)) (sys\<lparr>springs := xs @ [c]\<rparr>) = Some sys3"
    using True by (simp add: deleteSpring_def getSpring_def springCount_def putSpring_def 1 2)
  with s3 True show ?thesis by simp
qed

lemma alive_unselect: "status (setSelected False e) AND S_ALIVE = status e AND S_ALIVE"
proof -
  have "NOT S_SELECTED AND S_ALIVE = S_ALIVE" by (simp add: S_SELECTED_def S_ALIVE_def)
  thus ?thesis by (simp add: setSelected_def and.assoc)
qed

lemma remapped_unmapped: "e \<notin> fst ` set zs \<Longrightarrow> remapped zs e = e"
  by (simp add: remapped_def map_of_eq_None_iff [THEN iffD2])

lemma dup_spring_selected:
  assumes "i < length (springs sys)" "isSelected (springs sys ! i)"
    and "\<forall>(f, t) \<in> set (zip mf mt). 0 \<le> t \<and> t < massCount sys"
    and "isAlive (springs sys ! i) \<and> m1 (springs sys ! i) \<notin> fst ` set (zip mf mt)
           \<and> m2 (springs sys ! i) \<notin> fst ` set (zip mf mt)
         \<Longrightarrow> 0 \<le> m1 (springs sys ! i) \<and> m1 (springs sys ! i) < massCount sys
           \<and> 0 \<le> m2 (springs sys ! i) \<and> m2 (springs sys ! i) < massCount sys"
  shows "\<exists>sys'. dup_spring mf mt i sys = Some sys'
           \<and> springs sys' = springs sys @ [spring_copy (zip mf mt) (springs sys ! i)]
           \<and> length (masses sys') = length (masses sys) \<and> state sys' = state sys
           \<and> fakeMass sys' = fakeMass sys \<and> fakeSpring sys' = fakeSpring sys"
proof -
  let ?s = "springs sys ! i" and ?zs = "zip mf mt" and ?ns = "length (springs sys)"
  let ?c0 = "setSelected False ?s"
  let ?sys3 = "sys\<lparr>springs := springs sys @ [?c0]\<rparr>"
  let ?c1 = "?c0\<lparr>m1 := remapped ?zs (m1 ?s), m2 := remapped ?zs (m2 ?s)\<rparr>"
  have c0: "m1 ?c0 = m1 ?s" "m2 ?c0 = m2 ?s" by (simp_all add: setSelected_def)
  have pre: "dup_spring mf mt i sys =
      do {
        (sys4, m1done, m2done) \<leftarrow> remap (int ?ns) ?zs False False ?sys3;
        if \<not> m1done \<and> \<not> m2done then deleteSpring (int ?ns) sys4 else Some sys4
      }"
    using assms(1,2)
    by (simp add: dup_spring_def createSpring_def putSpring_def springCount_def nth_append)
  have w: "?ns < length (springs ?sys3)" by simp
  have r: "\<forall>(f, t) \<in> set ?zs. 0 \<le> t \<and> t < massCount ?sys3"
    using assms(3) by (simp add: massCount_def)
  from remap_eq [OF w r, of False False] obtain sys4 where
    4: "remap (int ?ns) ?zs False False ?sys3
          = Some (sys4, m1 ?s \<in> fst ` set ?zs, m2 ?s \<in> fst ` set ?zs)"
    and s4: "springs sys4 = springs sys @ [?c1]"
    and f4: "length (masses sys4) = length (masses sys)" "state sys4 = state sys"
      "fakeMass sys4 = fakeMass sys" "fakeSpring sys4 = fakeSpring sys"
    by (auto simp: c0)
  show ?thesis
  proof (cases "m1 ?s \<notin> fst ` set ?zs \<and> m2 ?s \<notin> fst ` set ?zs")
    case False
    hence "dup_spring mf mt i sys = Some sys4" by (auto simp: pre 4)
    moreover from False have "spring_copy ?zs ?s = ?c1" by (auto simp: spring_copy_def Let_def)
    ultimately show ?thesis using s4 f4 by simp
  next
    case True
    hence u: "remapped ?zs (m1 ?s) = m1 ?s" "remapped ?zs (m2 ?s) = m2 ?s"
      by (simp_all add: remapped_unmapped)
    have e4: "sys4 = sys4\<lparr>springs := springs sys @ [?c1]\<rparr>" using s4 by simp
    have al: "isAlive ?c1 = isAlive ?s" by (simp add: isAlive_def alive_unselect)
    have rng: "isAlive ?c1 \<Longrightarrow>
        0 \<le> m1 ?c1 \<and> m1 ?c1 < massCount sys4 \<and> 0 \<le> m2 ?c1 \<and> m2 ?c1 < massCount sys4"
      using assms(4) True f4 unfolding al by (simp add: u massCount_def)
    from deleteSpring_last [OF rng, of "springs sys"] obtain sys5 where
      5: "deleteSpring (int ?ns) (sys4\<lparr>springs := springs sys @ [?c1]\<rparr>) = Some sys5"
      and s5: "springs sys5 = springs sys @ [if isAlive ?c1 then ?c1\<lparr>status := 0\<rparr> else ?c1]"
      and f5: "length (masses sys5) = length (masses sys4)" "state sys5 = state sys4"
        "fakeMass sys5 = fakeMass sys4" "fakeSpring sys5 = fakeSpring sys4"
      by blast
    from 5 e4 have 5: "deleteSpring (int ?ns) sys4 = Some sys5" by simp
    have "dup_spring mf mt i sys = Some sys5" using True by (simp add: pre 4 5)
    moreover from True have "spring_copy ?zs ?s = (if isAlive ?c1 then ?c1\<lparr>status := 0\<rparr> else ?c1)"
      by (simp add: spring_copy_def Let_def)
    ultimately show ?thesis using s5 f5 f4 by simp
  qed
qed


lemma spring_pass:
  assumes "\<forall>(f, t) \<in> set (zip mf mt). 0 \<le> t \<and> t < massCount sys"
    and "\<forall>s \<in> set (springs sys).
           isSelected s \<and> isAlive s \<and> m1 s \<notin> fst ` set (zip mf mt)
             \<and> m2 s \<notin> fst ` set (zip mf mt)
           \<longrightarrow> 0 \<le> m1 s \<and> m1 s < massCount sys \<and> 0 \<le> m2 s \<and> m2 s < massCount sys"
    and "k \<le> length (springs sys)"
  shows "\<exists>sys'. for_index (dup_spring mf mt) [0..<k] sys = Some sys'
           \<and> springs sys' = springs sys
                @ map (spring_copy (zip mf mt)) (filter isSelected (take k (springs sys)))
           \<and> length (masses sys') = length (masses sys) \<and> state sys' = state sys
           \<and> fakeMass sys' = fakeMass sys \<and> fakeSpring sys' = fakeSpring sys"
  using assms(3)
proof (induction k)
  case 0
  show ?case by simp
next
  case (Suc k)
  hence k: "k < length (springs sys)" by simp
  with Suc.IH obtain sysk where
    run: "for_index (dup_spring mf mt) [0..<k] sys = Some sysk"
    and sp: "springs sysk = springs sys
                @ map (spring_copy (zip mf mt)) (filter isSelected (take k (springs sys)))"
    and fr: "length (masses sysk) = length (masses sys)" "state sysk = state sys"
      "fakeMass sysk = fakeMass sys" "fakeSpring sysk = fakeSpring sys"
    by auto
  have nk: "springs sysk ! k = springs sys ! k" using k by (simp add: sp nth_append)
  have tk: "take (Suc k) (springs sys) = take k (springs sys) @ [springs sys ! k]"
    using k by (simp add: take_Suc_conv_app_nth)
  have all: "for_index (dup_spring mf mt) ([0..<k] @ [k]) sys = dup_spring mf mt k sysk"
    by (simp add: for_index_snoc run)
  show ?case
  proof (cases "isSelected (springs sys ! k)")
    case False
    hence "dup_spring mf mt k sysk = Some sysk" by (simp add: dup_spring_unselected nk)
    with False sp fr show ?thesis by (simp add: all tk)
  next
    case True
    have 1: "k < length (springs sysk)" using k by (simp add: sp)
    have 2: "isSelected (springs sysk ! k)" using True by (simp add: nk)
    have 3: "\<forall>(f, t) \<in> set (zip mf mt). 0 \<le> t \<and> t < massCount sysk"
      using assms(1) fr by (simp add: massCount_def)
    have 4: "0 \<le> m1 (springs sysk ! k) \<and> m1 (springs sysk ! k) < massCount sysk
           \<and> 0 \<le> m2 (springs sysk ! k) \<and> m2 (springs sysk ! k) < massCount sysk"
      if "isAlive (springs sysk ! k) \<and> m1 (springs sysk ! k) \<notin> fst ` set (zip mf mt)
           \<and> m2 (springs sysk ! k) \<notin> fst ` set (zip mf mt)"
    proof -
      have "springs sys ! k \<in> set (springs sys)" using k by simp
      with assms(2) True that show ?thesis unfolding nk by (simp add: massCount_def fr)
    qed
    from dup_spring_selected [OF 1 2 3 4] obtain sys' where
      "dup_spring mf mt k sysk = Some sys'"
      "springs sys' = springs sysk @ [spring_copy (zip mf mt) (springs sys ! k)]"
      "length (masses sys') = length (masses sysk)" "state sys' = state sysk"
      "fakeMass sys' = fakeMass sysk" "fakeSpring sys' = fakeSpring sysk"
      unfolding nk by blast
    with True sp fr show ?thesis by (simp add: all tk)
  qed
qed

lemma distinct_selected_masses: "distinct (selected_masses sys)"
  by (simp add: selected_masses_def)

lemma mass_pass:
  "dup_masses junk 0 sys [] [] =
     (sys\<lparr>masses := masses sys @ map (\<lambda>j. mass_copy (masses sys ! j)) (selected_masses sys)\<rparr>,
      map int (selected_masses sys),
      map int [length (masses sys)..<length (masses sys) + length (selected_masses sys)])"
proof -
  have "\<forall>j. length (masses sys) \<le> j \<and> j < length (masses sys)
          \<longrightarrow> \<not> isSelected (masses sys ! j)"
    by auto
  from dup_masses_eq [OF le0 order_refl this, of junk "[]" "[]"] show ?thesis
    by (simp add: selected_masses_def)
qed

lemma fst_dup_map: "fst ` set (dup_map sys) = int ` set (selected_masses sys)"
proof -
  have "map fst (dup_map sys) = map int (selected_masses sys)"
    by (simp add: dup_map_def)
  from arg_cong [OF this, of set] show ?thesis by simp
qed

lemma snd_dup_map:
  assumes "(f, t) \<in> set (dup_map sys)"
  shows "0 \<le> t \<and> t < int (length (masses sys) + length (selected_masses sys))"
proof -
  from assms have "t \<in> set (map int [length (masses sys)..<
      length (masses sys) + length (selected_masses sys)])"
    unfolding dup_map_def by (rule set_zip_rightD)
  thus ?thesis by auto
qed

lemma duplicateSelected_springs:
  assumes "\<forall>s \<in> set (springs sys).
             isSelected s \<and> isAlive s \<and> m1 s \<notin> int ` set (selected_masses sys)
               \<and> m2 s \<notin> int ` set (selected_masses sys)
             \<longrightarrow> 0 \<le> m1 s \<and> m1 s < massCount sys \<and> 0 \<le> m2 s \<and> m2 s < massCount sys"
  shows "\<exists>sys'. duplicateSelected junk sys = Some sys'
           \<and> springs sys'
               = springs sys @ map (spring_copy (dup_map sys)) (filter isSelected (springs sys))
           \<and> length (masses sys') = length (masses sys) + length (selected_masses sys)
           \<and> state sys' = state sys"
proof -
  let ?sys1 = "sys\<lparr>masses := masses sys
                  @ map (\<lambda>j. mass_copy (masses sys ! j)) (selected_masses sys)\<rparr>"
  let ?mf = "map int (selected_masses sys)"
  let ?mt = "map int [length (masses sys)..<length (masses sys) + length (selected_masses sys)]"
  have zs: "zip ?mf ?mt = dup_map sys" by (simp add: dup_map_def)
  have 1: "\<forall>(f, t) \<in> set (zip ?mf ?mt). 0 \<le> t \<and> t < massCount ?sys1"
    unfolding zs using snd_dup_map [of _ _ sys] by (auto simp: massCount_def)
  have 2: "\<forall>s \<in> set (springs ?sys1).
           isSelected s \<and> isAlive s \<and> m1 s \<notin> fst ` set (zip ?mf ?mt)
             \<and> m2 s \<notin> fst ` set (zip ?mf ?mt)
           \<longrightarrow> 0 \<le> m1 s \<and> m1 s < massCount ?sys1 \<and> 0 \<le> m2 s \<and> m2 s < massCount ?sys1"
    unfolding zs fst_dup_map using assms by (auto simp: massCount_def)
  have 3: "length (springs sys) \<le> length (springs ?sys1)" by simp
  from spring_pass [OF 1 2 3] obtain sys' where
    "for_index (dup_spring ?mf ?mt) [0..<length (springs sys)] ?sys1 = Some sys'"
    "springs sys' = springs sys @ map (spring_copy (dup_map sys)) (filter isSelected (springs sys))"
    "length (masses sys') = length (masses sys) + length (selected_masses sys)"
    "state sys' = state sys"
    unfolding zs by auto
  thus ?thesis
    by (simp add: duplicateSelected_def mass_pass springCount_def)
qed

lemma spring_copy_dead:
  assumes "m1 s \<notin> fst ` set zs" "m2 s \<notin> fst ` set zs"
  shows "\<not> isAlive (spring_copy zs s)"
  using assms by (simp add: spring_copy_def Let_def isAlive_def)

lemma upt_split3:
  assumes "c < n"
  shows "[0..<n] = [0..<c] @ c # [Suc c..<n]"
proof -
  have "[0..<c + (n - c)] = [0..<c] @ [c..<c + (n - c)]"
    by (rule upt_add_eq_append) simp
  moreover have "c + (n - c) = n" using assms by simp
  ultimately have "[0..<n] = [0..<c] @ [c..<n]" by simp
  thus ?thesis using assms by (simp add: upt_conv_Cons)
qed

lemma duplicateSelected_pair:
  assumes "selected_masses sys = [a, b]"
    and "[k\<leftarrow>[0..<length (springs sys)]. isSelected (springs sys ! k)] = [c]"
    and "(m1 (springs sys ! c) = int a \<and> m2 (springs sys ! c) = int b)
         \<or> (m1 (springs sys ! c) = int b \<and> m2 (springs sys ! c) = int a)"
  shows "duplicateSelected junk sys
       = Some (sys\<lparr>masses := masses sys
                   @ [(mass_copy (masses sys ! a))\<lparr>parents := [int (length (springs sys))]\<rparr>,
                      (mass_copy (masses sys ! b))\<lparr>parents := [int (length (springs sys))]\<rparr>],
                 springs := springs sys
                   @ [(setSelected False (springs sys ! c))
                        \<lparr>m1 := (if m1 (springs sys ! c) = int a then int (length (masses sys))
                                 else int (length (masses sys)) + 1),
                         m2 := (if m2 (springs sys ! c) = int a then int (length (masses sys))
                                 else int (length (masses sys)) + 1)\<rparr>]\<rparr>)"
    (is "_ = Some ?sys2")
proof -
  let ?n = "length (masses sys)" and ?ns = "length (springs sys)"
  let ?sys1 = "sys\<lparr>masses := masses sys @ [mass_copy (masses sys ! a), mass_copy (masses sys ! b)]\<rparr>"
  let ?mf = "[int a, int b]" and ?mt = "[int ?n, int ?n + 1]"
  have mem: "j \<in> set [a, b] \<longleftrightarrow> j < ?n \<and> isSelected (masses sys ! j)" for j
    using filter_upt_singleton [OF assms(1) [unfolded selected_masses_def]] .
  have ab: "a < ?n" "b < ?n" using mem [of a] mem [of b] by simp_all
  have ne: "a \<noteq> b" using distinct_selected_masses [of sys] assms(1) by simp
  have smem: "k \<in> set [c] \<longleftrightarrow> k < ?ns \<and> isSelected (springs sys ! k)" for k
    using filter_upt_singleton [OF assms(2)] .
  have c: "c < ?ns" "isSelected (springs sys ! c)" using smem [of c] by simp_all
  have un: "\<not> isSelected (springs sys ! k)" if "k < ?ns" "k \<noteq> c" for k
    using smem [of k] that by simp
  have mp: "dup_masses junk 0 sys [] [] = (?sys1, ?mf, ?mt)"
    by (simp add: mass_pass assms(1) upt_conv_Cons)
  have 1: "for_index (dup_spring ?mf ?mt) [0..<c] ?sys1 = Some ?sys1"
    using c(1) by (intro for_index_skip dup_spring_unselected) (simp add: un)
  have 2: "dup_spring ?mf ?mt c ?sys1 = Some ?sys2"
    by (rule dup_spring_pair [OF ab ne c assms(3)])
  have 3: "for_index (dup_spring ?mf ?mt) [Suc c..<?ns] ?sys2 = Some ?sys2"
    by (intro for_index_skip dup_spring_unselected) (simp add: un nth_append)
  have "for_index (dup_spring ?mf ?mt) [0..<?ns] ?sys1 = Some ?sys2"
    unfolding upt_split3 [OF c(1)] by (simp add: for_index_append 1 2 3)
  thus ?thesis by (simp add: duplicateSelected_def mp springCount_def)
qed

text \<open>
  Claim C5, as amended. When exactly two masses \<open>a\<close> and \<open>b\<close> and exactly one spring
  \<open>c\<close> are selected and the spring joins the two masses, \<^verbatim>\<open>duplicateSelected\<close>
  returns, appends exactly two masses and one spring and changes nothing else. The new
  masses are the copies of \<open>a\<close> and \<open>b\<close>, in this order, with the selection cleared;
  the parent links of the originals are not copied, and the parent list of each copy
  holds exactly the new spring, which the spring pass adds. The new spring is the copy
  of \<open>c\<close> with the selection cleared and each endpoint replaced by the copy of the mass
  it named, so it joins the two new masses; \<open>ks\<close>, \<open>kd\<close> and the rest length are
  those of \<open>c\<close>. In general, provided the endpoints of every alive selected spring
  neither of whose endpoints is a selected mass are mass indices, the call returns and
  appends one copy per selected spring, in order, as \<open>spring_copy\<close> describes it, and
  one mass per selected mass; the copy of a selected spring neither of whose endpoints
  is a selected mass is not alive.
\<close>

theorem C5_duplicateSelected:
  "(selected_masses sys = [a, b]
      \<and> [k\<leftarrow>[0..<length (springs sys)]. isSelected (springs sys ! k)] = [c]
      \<and> ((m1 (springs sys ! c) = int a \<and> m2 (springs sys ! c) = int b)
           \<or> (m1 (springs sys ! c) = int b \<and> m2 (springs sys ! c) = int a))
    \<longrightarrow> (let n = int (length (masses sys)); ns = int (length (springs sys));
              s = springs sys ! c in
          duplicateSelected junk sys
            = Some (sys\<lparr>masses := masses sys
                        @ [(setSelected False (masses sys ! a))\<lparr>parents := [ns]\<rparr>,
                           (setSelected False (masses sys ! b))\<lparr>parents := [ns]\<rparr>],
                      springs := springs sys
                        @ [(setSelected False s)
                             \<lparr>m1 := (if m1 s = int a then n else n + 1),
                              m2 := (if m2 s = int a then n else n + 1)\<rparr>]\<rparr>)))
   \<and> ((\<forall>s \<in> set (springs sys).
           isSelected s \<and> isAlive s \<and> m1 s \<notin> int ` set (selected_masses sys)
             \<and> m2 s \<notin> int ` set (selected_masses sys)
           \<longrightarrow> 0 \<le> m1 s \<and> m1 s < massCount sys \<and> 0 \<le> m2 s \<and> m2 s < massCount sys)
    \<longrightarrow> (\<exists>sys'. duplicateSelected junk sys = Some sys'
           \<and> springs sys'
               = springs sys @ map (spring_copy (dup_map sys)) (filter isSelected (springs sys))
           \<and> length (masses sys') = length (masses sys) + length (selected_masses sys)
           \<and> (\<forall>s \<in> set (springs sys).
                 isSelected s \<and> m1 s \<notin> int ` set (selected_masses sys)
                   \<and> m2 s \<notin> int ` set (selected_masses sys)
                 \<longrightarrow> \<not> isAlive (spring_copy (dup_map sys) s))))"
proof (intro conjI impI)
  assume h: "selected_masses sys = [a, b]
      \<and> [k\<leftarrow>[0..<length (springs sys)]. isSelected (springs sys ! k)] = [c]
      \<and> ((m1 (springs sys ! c) = int a \<and> m2 (springs sys ! c) = int b)
           \<or> (m1 (springs sys ! c) = int b \<and> m2 (springs sys ! c) = int a))"
  hence 1: "selected_masses sys = [a, b]"
    and 2: "[k\<leftarrow>[0..<length (springs sys)]. isSelected (springs sys ! k)] = [c]"
    and 3: "(m1 (springs sys ! c) = int a \<and> m2 (springs sys ! c) = int b)
           \<or> (m1 (springs sys ! c) = int b \<and> m2 (springs sys ! c) = int a)"
    by simp_all
  show "let n = int (length (masses sys)); ns = int (length (springs sys));
              s = springs sys ! c in
          duplicateSelected junk sys
            = Some (sys\<lparr>masses := masses sys
                        @ [(setSelected False (masses sys ! a))\<lparr>parents := [ns]\<rparr>,
                           (setSelected False (masses sys ! b))\<lparr>parents := [ns]\<rparr>],
                      springs := springs sys
                        @ [(setSelected False s)
                             \<lparr>m1 := (if m1 s = int a then n else n + 1),
                              m2 := (if m2 s = int a then n else n + 1)\<rparr>]\<rparr>)"
    unfolding Let_def duplicateSelected_pair [OF 1 2 3] by (simp add: mass_copy_def)
next
  assume h: "\<forall>s \<in> set (springs sys).
           isSelected s \<and> isAlive s \<and> m1 s \<notin> int ` set (selected_masses sys)
             \<and> m2 s \<notin> int ` set (selected_masses sys)
           \<longrightarrow> 0 \<le> m1 s \<and> m1 s < massCount sys \<and> 0 \<le> m2 s \<and> m2 s < massCount sys"
  have d: "\<forall>s \<in> set (springs sys).
                 isSelected s \<and> m1 s \<notin> int ` set (selected_masses sys)
                   \<and> m2 s \<notin> int ` set (selected_masses sys)
                 \<longrightarrow> \<not> isAlive (spring_copy (dup_map sys) s)"
    by (simp add: spring_copy_dead fst_dup_map)
  from duplicateSelected_springs [OF h, of junk] d
  show "\<exists>sys'. duplicateSelected junk sys = Some sys'
           \<and> springs sys'
               = springs sys @ map (spring_copy (dup_map sys)) (filter isSelected (springs sys))
           \<and> length (masses sys') = length (masses sys) + length (selected_masses sys)
           \<and> (\<forall>s \<in> set (springs sys).
                 isSelected s \<and> m1 s \<notin> int ` set (selected_masses sys)
                   \<and> m2 s \<notin> int ` set (selected_masses sys)
                 \<longrightarrow> \<not> isAlive (spring_copy (dup_map sys) s))"
    by blast
qed

lemmas dup_defs = ex_dup_pair_def ex_dup_loose_def selected_masses_def dup_map_def
  State_reset_def new_Mass_def zero_Mass_def new_Spring_def isSelected_def isAlive_def
  setSelected_def S_ALIVE_def S_SELECTED_def massCount_def spring_copy_def remapped_def

lemma ex_dup_pair_selection:
  "selected_masses ex_dup_pair = [0, 2]"
  "[k\<leftarrow>[0..<length (springs ex_dup_pair)]. isSelected (springs ex_dup_pair ! k)] = [1]"
  "m1 (springs ex_dup_pair ! 1) = 2" "m2 (springs ex_dup_pair ! 1) = 0"
  by (simp_all add: dup_defs upt_conv_Cons)

text \<open>
  Claim C5 as stated fails on the parent lists: after the call each of the two new
  masses has the new spring in its parent list, which is not empty. Masses 0 and 2 and
  the spring 1 that joins them are selected; the copies are the masses 3 and 4 and the
  spring 2, which joins 4 and 3.
\<close>

theorem C5_counterexample:
  "map parents (masses (the (duplicateSelected zero_Mass ex_dup_pair)))
     = [[0, 1], [0], [1], [2], [2]]
   \<and> map status (masses (the (duplicateSelected zero_Mass ex_dup_pair))) = [3, 1, 3, 1, 1]
   \<and> springs (the (duplicateSelected zero_Mass ex_dup_pair)) ! 2
     = \<lparr>status = 1, ks = 2, kd = 3, restlen = 5, m1 = 4, m2 = 3\<rparr>
   \<and> length (springs (the (duplicateSelected zero_Mass ex_dup_pair))) = 3"
proof -
  have 3: "(m1 (springs ex_dup_pair ! 1) = int 0 \<and> m2 (springs ex_dup_pair ! 1) = int 2)
         \<or> (m1 (springs ex_dup_pair ! 1) = int 2 \<and> m2 (springs ex_dup_pair ! 1) = int 0)"
    using ex_dup_pair_selection(3,4) by simp
  show ?thesis
    unfolding duplicateSelected_pair [OF ex_dup_pair_selection(1,2) 3]
    by (simp add: dup_defs mass_copy_def)
qed

theorem C5_witness:
  "selected_masses ex_dup_pair = [0, 2]
   \<and> [k\<leftarrow>[0..<length (springs ex_dup_pair)]. isSelected (springs ex_dup_pair ! k)] = [1]
   \<and> m1 (springs ex_dup_pair ! 1) = 2 \<and> m2 (springs ex_dup_pair ! 1) = 0
   \<and> (\<exists>sys'. duplicateSelected zero_Mass ex_dup_pair = Some sys'
         \<and> length (masses sys') = 5 \<and> length (springs sys') = 3
         \<and> springs sys' ! 2 = \<lparr>status = 1, ks = 2, kd = 3, restlen = 5, m1 = 4, m2 = 3\<rparr>
         \<and> map parents (masses sys') = [[0, 1], [0], [1], [2], [2]])
   \<and> selected_masses ex_dup_loose = [2]
   \<and> filter isSelected (springs ex_dup_loose) = springs ex_dup_loose
   \<and> (\<exists>sys'. duplicateSelected zero_Mass ex_dup_loose = Some sys'
         \<and> length (masses sys') = 4
         \<and> springs sys' = springs ex_dup_loose
              @ [\<lparr>status = 0, ks = 2, kd = 3, restlen = 5, m1 = 0, m2 = 1\<rparr>])"
proof -
  have a3: "(m1 (springs ex_dup_pair ! 1) = int 0 \<and> m2 (springs ex_dup_pair ! 1) = int 2)
         \<or> (m1 (springs ex_dup_pair ! 1) = int 2 \<and> m2 (springs ex_dup_pair ! 1) = int 0)"
    using ex_dup_pair_selection(3,4) by simp
  have ha: "selected_masses ex_dup_pair = [0, 2]
      \<and> [k\<leftarrow>[0..<length (springs ex_dup_pair)]. isSelected (springs ex_dup_pair ! k)] = [1]
      \<and> ((m1 (springs ex_dup_pair ! 1) = int 0 \<and> m2 (springs ex_dup_pair ! 1) = int 2)
           \<or> (m1 (springs ex_dup_pair ! 1) = int 2 \<and> m2 (springs ex_dup_pair ! 1) = int 0))"
    using ex_dup_pair_selection(1,2) a3 by simp
  note A = C5_duplicateSelected [where sys = ex_dup_pair and a = 0 and b = 2 and c = 1
      and junk = zero_Mass, THEN conjunct1, THEN mp, OF ha, unfolded Let_def]
  have pa: "\<exists>sys'. duplicateSelected zero_Mass ex_dup_pair = Some sys'
         \<and> length (masses sys') = 5 \<and> length (springs sys') = 3
         \<and> springs sys' ! 2 = \<lparr>status = 1, ks = 2, kd = 3, restlen = 5, m1 = 4, m2 = 3\<rparr>
         \<and> map parents (masses sys') = [[0, 1], [0], [1], [2], [2]]"
    unfolding A by (simp add: dup_defs)
  have sl: "selected_masses ex_dup_loose = [2]"
    "filter isSelected (springs ex_dup_loose) = springs ex_dup_loose"
    by (simp_all add: dup_defs upt_conv_Cons)
  have hb: "\<forall>s \<in> set (springs ex_dup_loose).
           isSelected s \<and> isAlive s \<and> m1 s \<notin> int ` set (selected_masses ex_dup_loose)
             \<and> m2 s \<notin> int ` set (selected_masses ex_dup_loose)
           \<longrightarrow> 0 \<le> m1 s \<and> m1 s < massCount ex_dup_loose
             \<and> 0 \<le> m2 s \<and> m2 s < massCount ex_dup_loose"
    unfolding sl(1) by (simp add: ex_dup_loose_def new_Spring_def massCount_def)
  from C5_duplicateSelected [where sys = ex_dup_loose and junk = zero_Mass,
      THEN conjunct2, THEN mp, OF hb]
  obtain sys' where
    r: "duplicateSelected zero_Mass ex_dup_loose = Some sys'"
    and s: "springs sys' = springs ex_dup_loose
              @ map (spring_copy (dup_map ex_dup_loose)) (filter isSelected (springs ex_dup_loose))"
    and l: "length (masses sys') = length (masses ex_dup_loose)
              + length (selected_masses ex_dup_loose)"
    by blast
  have "map (spring_copy (dup_map ex_dup_loose)) (filter isSelected (springs ex_dup_loose))
      = [\<lparr>status = 0, ks = 2, kd = 3, restlen = 5, m1 = 0, m2 = 1\<rparr>]"
    unfolding sl(2) by (simp add: dup_defs upt_conv_Cons)
  with s have s': "springs sys' = springs ex_dup_loose
              @ [\<lparr>status = 0, ks = 2, kd = 3, restlen = 5, m1 = 0, m2 = 1\<rparr>]"
    by simp
  from l have l': "length (masses sys') = 4" unfolding sl(1) by (simp add: ex_dup_loose_def)
  from r s' l' have pb: "\<exists>sys'. duplicateSelected zero_Mass ex_dup_loose = Some sys'
         \<and> length (masses sys') = 4
         \<and> springs sys' = springs ex_dup_loose
              @ [\<lparr>status = 0, ks = 2, kd = 3, restlen = 5, m1 = 0, m2 = 1\<rparr>]"
    by blast
  from ex_dup_pair_selection pa sl pb show ?thesis by simp
qed

end
